theory Spec2Isabelle
  imports Main "HOL-Library.Sublist"
begin

section \<open>Python strings\<close>

text \<open>
  A Python \<^verbatim>\<open>str\<close> is a sequence of Unicode code points, so a character is its code
  point and a string a list of them. The literals of \<^verbatim>\<open>app.py\<close> that the pipeline uses
  are ASCII, where code point and byte agree; \<open>ustr\<close> reads such a literal.
\<close>

type_synonym pychar = nat

type_synonym pystr = "pychar list"

definition ustr :: "string \<Rightarrow> pystr" where
  "ustr s = map of_char s"

text \<open>
  \<^verbatim>\<open>\w\<close>, \<^verbatim>\<open>\s\<close> and \<^verbatim>\<open>str.strip()\<close> consult the Unicode character database of the Python
  runtime: \<^verbatim>\<open>\w\<close> is \<^verbatim>\<open>Py_UNICODE_ISALNUM(ch) || ch == '_'\<close>, and both \<^verbatim>\<open>\s\<close> and
  \<^verbatim>\<open>strip\<close> are \<^verbatim>\<open>Py_UNICODE_ISSPACE(ch)\<close>. The database is not part of the repository;
  the two classifications are a parameter of everything that cleans text.
\<close>

record unicode_db =
  isalnum :: "pychar \<Rightarrow> bool"
  isspace :: "pychar \<Rightarrow> bool"

text \<open>The ASCII part of the database, for running the model on concrete inputs.\<close>

definition ascii_db :: unicode_db where
  "ascii_db =
     \<lparr>isalnum = (\<lambda>c. (48 \<le> c \<and> c \<le> 57) \<or> (65 \<le> c \<and> c \<le> 90) \<or> (97 \<le> c \<and> c \<le> 122)),
      isspace = (\<lambda>c. (9 \<le> c \<and> c \<le> 13) \<or> (28 \<le> c \<and> c \<le> 32))\<rparr>"

text \<open>\<^verbatim>\<open>s.startswith(p)\<close>.\<close>

fun startswith :: "pystr \<Rightarrow> pystr \<Rightarrow> bool" where
  "startswith s [] = True"
| "startswith [] (p # ps) = False"
| "startswith (c # cs) (p # ps) = (c = p \<and> startswith cs ps)"

text \<open>\<^verbatim>\<open>sub in s\<close>: \<open>sub\<close> occurs in \<open>s\<close> as a contiguous run.\<close>

fun py_in :: "pystr \<Rightarrow> pystr \<Rightarrow> bool" where
  "py_in sub [] = (sub = [])"
| "py_in sub (c # cs) = (startswith (c # cs) sub \<or> py_in sub cs)"

text \<open>
  \<^verbatim>\<open>s.replace(old, new)\<close>: the occurrences of \<open>old\<close> are found from the left, each search
  resuming behind the previous occurrence, and every one is replaced. For an empty \<open>old\<close>
  Python puts \<open>new\<close> before every character and at the end.
\<close>

function py_replace :: "pystr \<Rightarrow> pystr \<Rightarrow> pystr \<Rightarrow> pystr" where
  "py_replace old new [] = (if old = [] then new else [])"
| "py_replace old new (c # cs) =
     (if old = [] then new @ c # py_replace old new cs
      else if startswith (c # cs) old
        then new @ py_replace old new (drop (length old) (c # cs))
      else c # py_replace old new cs)"
  by pat_completeness auto
termination
  by (relation "measure (\<lambda>(old, new, s). length s)") auto

text \<open>\<^verbatim>\<open>s.strip()\<close>: whitespace is dropped at both ends.\<close>

definition py_strip :: "unicode_db \<Rightarrow> pystr \<Rightarrow> pystr" where
  "py_strip U s = rev (dropWhile (isspace U) (rev (dropWhile (isspace U) s)))"

text \<open>
  \<^verbatim>\<open>re.sub(r'[C]+', '', text)\<close> for a character class \<open>C\<close>: scanning from the left, a
  match starts at the first character of the class and, \<^verbatim>\<open>+\<close> being greedy, takes the
  whole run of such characters; the run is replaced by the empty string.
\<close>

function re_sub_class :: "(pychar \<Rightarrow> bool) \<Rightarrow> pystr \<Rightarrow> pystr" where
  "re_sub_class C [] = []"
| "re_sub_class C (c # cs) =
     (if C c then re_sub_class C (dropWhile C cs) else c # re_sub_class C cs)"
  by pat_completeness auto
termination
  by (relation "measure (\<lambda>(C, s). length s)") (auto simp: length_dropWhile_le less_Suc_eq_le)

text \<open>\<^verbatim>\<open>str(n)\<close> for an integer, as the f-string \<^verbatim>\<open>f'{days}d'\<close> formats it.\<close>

fun str_nat :: "nat \<Rightarrow> pystr" where
  "str_nat n = (if n < 10 then [48 + n] else str_nat (n div 10) @ [48 + n mod 10])"

declare str_nat.simps [simp del]

definition str_int :: "int \<Rightarrow> pystr" where
  "str_int i = (if i < 0 then 45 # str_nat (nat (- i)) else str_nat (nat i))"

section \<open>The constants of \<^verbatim>\<open>app.py\<close>\<close>

definition kansas_outlets :: "pystr list" where
  "kansas_outlets = map ustr
     [''Kansas Reflector'',
      ''The Topeka Capital-Journal'',
      ''The Wichita Eagle'',
      ''KCLY Radio'',
      ''KSN-TV'',
      ''KWCH'',
      ''Kansas City Star'',
      ''Lawrence Journal-World'',
      ''The Garden City Telegram'',
      ''KSNT 27 News'',
      ''The Hutchinson News'',
      ''Salina Journal'',
      ''Hays Daily News'',
      ''Hays Post'',
      ''Emporia Gazette'',
      ''JC Post'',
      ''WIBW'']"

definition search_terms :: "pystr list" where
  "search_terms = map ustr
     [''Jerry Moran'',
      ''Senator Jerry Moran'',
      ''Senator Moran'',
      ''Sen. Moran'',
      ''Sen. Jerry Moran'',
      ''Sens. Moran'',
      ''Sens. Jerry Moran'']"

section \<open>\<^verbatim>\<open>clean_text\<close>\<close>

text \<open>
  The characters outside the class \<^verbatim>\<open>[^\w\s\-\.\,\:\;\!\?\(\)\'\"]\<close>: word characters,
  whitespace, and the eleven punctuation marks (the last two are \<^verbatim>\<open>'\<close>, 39, and \<^verbatim>\<open>"\<close>, 34).
\<close>

definition is_word :: "unicode_db \<Rightarrow> pychar \<Rightarrow> bool" where
  "is_word U c = (isalnum U c \<or> c = of_char CHR ''_'')"

definition safe_char :: "unicode_db \<Rightarrow> pychar \<Rightarrow> bool" where
  "safe_char U c = (is_word U c \<or> isspace U c \<or> c \<in> set (ustr ''-.,:;!?()'') \<or> c = 39 \<or> c = 34)"

definition clean_text :: "unicode_db \<Rightarrow> pystr \<Rightarrow> pystr" where
  "clean_text U text = py_strip U (re_sub_class (\<lambda>c. \<not> safe_char U c) text)"

section \<open>\<^verbatim>\<open>search_jerry_moran_news\<close>\<close>

subsection \<open>The news provider\<close>

text \<open>
  The \<^verbatim>\<open>GNews\<close> object with the four attributes the function sets before it queries.
\<close>

record gnews =
  period :: pystr
  results :: nat
  country :: pystr
  language :: pystr

text \<open>
  A record of the provider is a dictionary; the function reads the keys \<^verbatim>\<open>'url'\<close>,
  \<^verbatim>\<open>'title'\<close>, \<^verbatim>\<open>'publisher'\<close> (itself a dictionary, read at \<^verbatim>\<open>'title'\<close>) and
  \<^verbatim>\<open>'published date'\<close>. A key may be missing: \<open>None\<close>.
\<close>

record raw_entry =
  r_title :: "pystr option"
  r_url :: "pystr option"
  r_publisher :: "pystr option option"
  r_published_date :: "pystr option"

datatype error = ProviderError | KeyError

text \<open>
  \<^verbatim>\<open>google_news.get_news(search_term)\<close> returns a list of records or raises. The library
  is not part of the repository, and every search term is queried once per run, so the
  provider is a function of the configured object and the term.
\<close>

datatype response = Raises error | Returns "raw_entry list"

type_synonym provider = "gnews \<Rightarrow> pystr \<Rightarrow> response"

subsection \<open>First loop: querying and merging by link (lines 71 to 96)\<close>

text \<open>The dictionary \<^verbatim>\<open>converted_entry\<close>; \<^verbatim>\<open>'source'\<close> holds only a title.\<close>

record entry =
  e_title :: pystr
  e_link :: pystr
  e_source_title :: pystr
  e_published :: pystr

text \<open>
  The dictionary display of lines 87 to 92 reads the four keys in this order and raises
  \<^verbatim>\<open>KeyError\<close> at the first one that is missing.
\<close>

definition converted_entry :: "raw_entry \<Rightarrow> error + entry" where
  "converted_entry r =
     (case r_title r of None \<Rightarrow> Inl KeyError | Some t \<Rightarrow>
     (case r_url r of None \<Rightarrow> Inl KeyError | Some u \<Rightarrow>
     (case r_publisher r of None \<Rightarrow> Inl KeyError | Some p \<Rightarrow>
     (case p of None \<Rightarrow> Inl KeyError | Some m \<Rightarrow>
     (case r_published_date r of None \<Rightarrow> Inl KeyError | Some d \<Rightarrow>
        Inr \<lparr>e_title = t, e_link = u, e_source_title = m, e_published = d\<rparr>)))))"

text \<open>
  The state of the first loop. \<open>warnings\<close> lists the search terms for which
  \<^verbatim>\<open>st.warning\<close> was called; the progress bar and the status text are display only.
\<close>

record fetch_state =
  all_entries :: "entry list"
  seen_links :: "pystr set"
  warnings :: "pystr list"

text \<open>
  The body of \<^verbatim>\<open>for entry in results\<close> (lines 86 to 94). The test
  \<^verbatim>\<open>entry['url'] not in seen_links\<close> comes first: a record without \<^verbatim>\<open>'url'\<close> raises,
  a record whose link was seen is skipped without its other keys being read.
\<close>

definition merge_entry :: "fetch_state \<Rightarrow> raw_entry \<Rightarrow> error + fetch_state" where
  "merge_entry s r =
     (case r_url r of None \<Rightarrow> Inl KeyError | Some u \<Rightarrow>
       (if u \<notin> seen_links s then
          (case converted_entry r of Inl x \<Rightarrow> Inl x | Inr c \<Rightarrow>
             Inr (s\<lparr>all_entries := all_entries s @ [c], seen_links := insert u (seen_links s)\<rparr>))
        else Inr s))"

text \<open>
  The inner loop. An exception leaves it at once; what was appended to \<^verbatim>\<open>all_entries\<close>
  and added to \<^verbatim>\<open>seen_links\<close> before stays, since both are mutated in place.
\<close>

fun merge_results :: "fetch_state \<Rightarrow> raw_entry list \<Rightarrow> fetch_state \<times> error option" where
  "merge_results s [] = (s, None)"
| "merge_results s (r # rs) =
     (case merge_entry s r of Inl x \<Rightarrow> (s, Some x) | Inr s' \<Rightarrow> merge_results s' rs)"

text \<open>
  One iteration of \<^verbatim>\<open>for i, search_term in enumerate(search_terms)\<close>: the
  \<^verbatim>\<open>try\<close> block covers the provider call and the inner loop, and
  \<^verbatim>\<open>except Exception\<close> turns any exception into a warning.
\<close>

definition search_one :: "provider \<Rightarrow> gnews \<Rightarrow> fetch_state \<Rightarrow> pystr \<Rightarrow> fetch_state" where
  "search_one get_news google_news s search_term =
     (case get_news google_news search_term of
        Raises x \<Rightarrow> s\<lparr>warnings := warnings s @ [search_term]\<rparr>
      | Returns rs \<Rightarrow>
          (case merge_results s rs of
             (s', None) \<Rightarrow> s'
           | (s', Some x) \<Rightarrow> s'\<lparr>warnings := warnings s' @ [search_term]\<rparr>))"

definition google_news_of :: "int \<Rightarrow> gnews" where
  "google_news_of days =
     \<lparr>period = str_int days @ ustr ''d'', results = 100,
      country = ustr ''US'', language = ustr ''en''\<rparr>"

definition fetch_all :: "provider \<Rightarrow> int \<Rightarrow> fetch_state" where
  "fetch_all get_news days =
     foldl (search_one get_news (google_news_of days))
       \<lparr>all_entries = [], seen_links = {}, warnings = []\<rparr> search_terms"

subsection \<open>Second loop: filtering, cleaning, title dedup and tagging (lines 103 to 136)\<close>

record article =
  a_title :: pystr
  a_media :: pystr
  a_link :: pystr
  a_is_kansas :: bool
  a_published :: pystr

record filter_state =
  filtered_results :: "article list"
  seen_titles :: "pystr set"

text \<open>The body of \<^verbatim>\<open>for entry in all_entries\<close>; each \<^verbatim>\<open>continue\<close> returns the state as it is.\<close>

definition filter_entry :: "unicode_db \<Rightarrow> bool \<Rightarrow> bool \<Rightarrow> filter_state \<Rightarrow> entry \<Rightarrow> filter_state" where
  "filter_entry U exclude_gov exclude_quiver s entry =
     (let title = e_title entry; link = e_link entry; media = e_source_title entry in
      if exclude_gov \<and> py_in (ustr ''.gov'') media then s
      else if exclude_quiver \<and> py_in (ustr ''Quiver Quantitative'') media then s
      else
        let clean_title = py_replace (ustr '' - '' @ media) [] title;
            safe_title = clean_text U clean_title;
            safe_media = clean_text U media
        in if safe_title \<in> seen_titles s then s
           else
             let is_kansas = list_ex (\<lambda>kansas_outlet. py_in kansas_outlet media) kansas_outlets
             in s\<lparr>seen_titles := insert safe_title (seen_titles s),
                  filtered_results := filtered_results s @
                    [\<lparr>a_title = safe_title, a_media = safe_media, a_link = link,
                      a_is_kansas = is_kansas, a_published = e_published entry\<rparr>]\<rparr>)"

definition filter_all :: "unicode_db \<Rightarrow> bool \<Rightarrow> bool \<Rightarrow> entry list \<Rightarrow> filter_state" where
  "filter_all U exclude_gov exclude_quiver entries =
     foldl (filter_entry U exclude_gov exclude_quiver)
       \<lparr>filtered_results = [], seen_titles = {}\<rparr> entries"

subsection \<open>The function\<close>

definition search_jerry_moran_news ::
  "unicode_db \<Rightarrow> provider \<Rightarrow> int \<Rightarrow> bool \<Rightarrow> bool \<Rightarrow> article list \<times> nat" where
  "search_jerry_moran_news U get_news days exclude_gov exclude_quiver =
     (let s = fetch_all get_news days;
          f = filter_all U exclude_gov exclude_quiver (all_entries s)
      in (filtered_results f, length (all_entries s)))"

section \<open>Notions for stating the properties\<close>

text \<open>
  Keeping, of the elements with the same key, the first one: what a loop that skips
  every key it has seen computes.
\<close>

fun first_by :: "('a \<Rightarrow> 'k) \<Rightarrow> 'a list \<Rightarrow> 'a list" where
  "first_by k [] = []"
| "first_by k (x # xs) = x # first_by k (filter (\<lambda>y. k y \<noteq> k x) xs)"

text \<open>
  The two source filters of lines 112 to 115, as predicates on a merged record.
\<close>

definition gov_source :: "entry \<Rightarrow> bool" where
  "gov_source e = py_in (ustr ''.gov'') (e_source_title e)"

definition quiver_source :: "entry \<Rightarrow> bool" where
  "quiver_source e = py_in (ustr ''Quiver Quantitative'') (e_source_title e)"

definition filtered_out :: "bool \<Rightarrow> bool \<Rightarrow> entry \<Rightarrow> bool" where
  "filtered_out exclude_gov exclude_quiver e =
     (exclude_gov \<and> gov_source e \<or> exclude_quiver \<and> quiver_source e)"

text \<open>
  The value of \<^verbatim>\<open>safe_title\<close> that lines 118 and 119 compute for a merged record.
\<close>

definition safe_title_of :: "unicode_db \<Rightarrow> entry \<Rightarrow> pystr" where
  "safe_title_of U e = clean_text U (py_replace (ustr '' - '' @ e_source_title e) [] (e_title e))"

text \<open>
  The value of \<^verbatim>\<open>is_kansas\<close> (line 128).
\<close>

definition kansas_source :: "entry \<Rightarrow> bool" where
  "kansas_source e = list_ex (\<lambda>kansas_outlet. py_in kansas_outlet (e_source_title e)) kansas_outlets"

text \<open>
  The dictionary that lines 130 to 136 append for a merged record.
\<close>

definition article_of :: "unicode_db \<Rightarrow> entry \<Rightarrow> article" where
  "article_of U e =
     \<lparr>a_title = safe_title_of U e, a_media = clean_text U (e_source_title e),
      a_link = e_link e, a_is_kansas = kansas_source e,
      a_published = e_published e\<rparr>"

text \<open>
  The records a provider call hands to the inner loop; none when the call raises.
\<close>

definition returned :: "response \<Rightarrow> raw_entry list" where
  "returned resp = (case resp of Raises x \<Rightarrow> [] | Returns rs \<Rightarrow> rs)"

text \<open>
  The links that occur in a list of provider records.
\<close>

definition links_of :: "raw_entry list \<Rightarrow> pystr set" where
  "links_of rs = {u. Some u \<in> r_url ` set rs}"

text \<open>
  The keys the function reads are all present in a provider record.
\<close>

definition has_keys :: "raw_entry \<Rightarrow> bool" where
  "has_keys r =
     (r_title r \<noteq> None \<and> r_url r \<noteq> None \<and> r_publisher r \<noteq> None \<and>
      r_publisher r \<noteq> Some None \<and> r_published_date r \<noteq> None)"

text \<open>
  The body of the inner loop raises at the record \<open>r\<close>, the links \<open>seen\<close> having been
  seen: \<open>r\<close> has no \<^verbatim>\<open>'url'\<close>, or its link is new and another key is missing.
\<close>

definition raises_at :: "pystr set \<Rightarrow> raw_entry \<Rightarrow> bool" where
  "raises_at seen r = (case r_url r of None \<Rightarrow> True | Some u \<Rightarrow> u \<notin> seen \<and> \<not> has_keys r)"

text \<open>
  The provider call raised.
\<close>

definition raised :: "response \<Rightarrow> bool" where
  "raised resp = (case resp of Raises x \<Rightarrow> True | Returns rs \<Rightarrow> False)"

text \<open>
  The records of one variant up to the first at which the body raises, each record
  adding its link to the links seen.
\<close>

fun processed :: "pystr set \<Rightarrow> raw_entry list \<Rightarrow> raw_entry list" where
  "processed seen [] = []"
| "processed seen (r # rs) =
     (if raises_at seen r then [] else r # processed (seen \<union> links_of [r]) rs)"

text \<open>
  The same for the variants in turn, a variant starting from the links seen in the
  variants before it: one list of records per search term.
\<close>

fun processed_all :: "provider \<Rightarrow> gnews \<Rightarrow> pystr set \<Rightarrow> pystr list \<Rightarrow> raw_entry list list" where
  "processed_all get_news g seen [] = []"
| "processed_all get_news g seen (t # ts) =
     processed seen (returned (get_news g t)) #
     processed_all get_news g (seen \<union> links_of (processed seen (returned (get_news g t)))) ts"

text \<open>
  The search terms whose variant ends in an exception: the call raised, or the inner loop
  stopped before the last record.
\<close>

fun warned :: "provider \<Rightarrow> gnews \<Rightarrow> pystr set \<Rightarrow> pystr list \<Rightarrow> pystr list" where
  "warned get_news g seen [] = []"
| "warned get_news g seen (t # ts) =
     (if raised (get_news g t) \<or>
         processed seen (returned (get_news g t)) \<noteq> returned (get_news g t)
      then [t] else []) @
     warned get_news g (seen \<union> links_of (processed seen (returned (get_news g t)))) ts"


text \<open>
  The provider \<open>get_news\<close> with every call that raises replaced by a call that returns
  no records.
\<close>

definition without_failed_calls :: "provider \<Rightarrow> provider" where
  "without_failed_calls get_news g t =
     (case get_news g t of Raises x \<Rightarrow> Returns [] | Returns rs \<Rightarrow> Returns rs)"

section \<open>The cleaning and the raw count as the specification words them\<close>

text \<open>
  The specification describes the cleaned title as: a trailing \<^verbatim>\<open>" - {publisher name}"\<close>
  removed from the title if present, then every character deleted that is not
  alphanumeric, whitespace or one of the eleven punctuation marks, then the ends trimmed;
  and the cleaned publisher name as the same without the removal of the suffix.
\<close>

definition endswith :: "pystr \<Rightarrow> pystr \<Rightarrow> bool" where
  "endswith s p = startswith (rev s) (rev p)"

definition spec_strip_suffix :: "pystr \<Rightarrow> pystr \<Rightarrow> pystr" where
  "spec_strip_suffix tail title =
     (if endswith title tail then take (length title - length tail) title else title)"

definition spec_safe_char :: "unicode_db \<Rightarrow> pychar \<Rightarrow> bool" where
  "spec_safe_char U c =
     (isalnum U c \<or> isspace U c \<or> c \<in> set (ustr ''-.,:;!?()'') \<or> c = 39 \<or> c = 34)"

definition spec_clean_title :: "unicode_db \<Rightarrow> pystr \<Rightarrow> pystr \<Rightarrow> pystr" where
  "spec_clean_title U publisher title =
     py_strip U (filter (spec_safe_char U) (spec_strip_suffix (ustr '' - '' @ publisher) title))"

definition spec_clean_publisher :: "unicode_db \<Rightarrow> pystr \<Rightarrow> pystr" where
  "spec_clean_publisher U publisher = py_strip U (filter (spec_safe_char U) publisher)"

text \<open>
  The specification describes the raw count as the number of distinct links seen across
  the successful variants; a variant is successful when its iteration ended without a
  warning.
\<close>

definition successful_terms :: "provider \<Rightarrow> int \<Rightarrow> pystr list" where
  "successful_terms get_news days =
     filter (\<lambda>t. t \<notin> set (warnings (fetch_all get_news days))) search_terms"

definition spec_raw_count :: "provider \<Rightarrow> int \<Rightarrow> nat" where
  "spec_raw_count get_news days =
     card (links_of (concat (map (\<lambda>t. returned (get_news (google_news_of days) t))
       (successful_terms get_news days))))"

section \<open>Three providers for concrete runs\<close>

text \<open>
  \<open>record_of\<close> is a provider record with all its keys, \<open>entry_of\<close> the merged record
  it is converted to.
\<close>

definition record_of :: "string \<Rightarrow> string \<Rightarrow> string \<Rightarrow> string \<Rightarrow> raw_entry" where
  "record_of title url publisher date =
     \<lparr>r_title = Some (ustr title), r_url = Some (ustr url),
      r_publisher = Some (Some (ustr publisher)), r_published_date = Some (ustr date)\<rparr>"

definition entry_of :: "string \<Rightarrow> string \<Rightarrow> string \<Rightarrow> string \<Rightarrow> entry" where
  "entry_of title url publisher date =
     \<lparr>e_title = ustr title, e_link = ustr url, e_source_title = ustr publisher, e_published = ustr date\<rparr>"

text \<open>
  \<open>demo_news\<close>: the first variant returns two records with the same headline from two
  Kansas outlets, a record of a \<^verbatim>\<open>.gov\<close> publisher and a record with the same headline from
  another publisher; the second variant returns the first link again and a record of
  Quiver Quantitative; the call of the third variant raises.
\<close>

definition demo_news :: provider where
  "demo_news g t =
     (if t = ustr ''Jerry Moran'' then
        Returns [record_of ''Farm Bill - KWCH'' ''x/1'' ''KWCH'' ''Mon'',
                 record_of ''Farm Bill - WIBW'' ''x/2'' ''WIBW'' ''Tue'',
                 record_of ''Grant - Example.gov'' ''x/3'' ''Example.gov'' ''Wed'',
                 record_of ''Grant - CNN'' ''x/4'' ''CNN'' ''Thu'']
      else if t = ustr ''Senator Jerry Moran'' then
        Returns [record_of ''Farm Bill - KWCH'' ''x/1'' ''KWCH'' ''Mon'',
                 record_of ''Trades'' ''x/5'' ''Quiver Quantitative'' ''Fri'']
      else if t = ustr ''Senator Moran'' then Raises ProviderError
      else Returns [])"

text \<open>
  \<open>partial_news\<close>: the first variant returns a well-formed record followed by a record
  without \<^verbatim>\<open>'url'\<close>, so its iteration raises \<^verbatim>\<open>KeyError\<close> at the second record; the calls
  of the six other variants raise.
\<close>

definition partial_news :: provider where
  "partial_news g t =
     (if t = ustr ''Jerry Moran'' then
        Returns [record_of ''Farm Bill'' ''x/1'' ''KWCH'' ''Mon'',
                 \<lparr>r_title = Some (ustr ''Grant''), r_url = None,
                  r_publisher = Some (Some (ustr ''CNN'')), r_published_date = Some (ustr ''Tue'')\<rparr>]
      else Raises ProviderError)"

text \<open>
  \<open>suffix_news\<close>: one record whose publisher name contains an underscore and whose title
  contains \<^verbatim>\<open>" - {publisher name}"\<close> in the middle.
\<close>

definition suffix_news :: provider where
  "suffix_news g t =
     (if t = ustr ''Jerry Moran'' then Returns [record_of ''A - K_W B'' ''x/1'' ''K_W'' ''Mon'']
      else Returns [])"

section \<open>Facts about the string operations\<close>

lemma re_sub_class_filter: "re_sub_class C s = filter (\<lambda>c. \<not> C c) s"
proof (induction C s rule: re_sub_class.induct)
  case (1 C)
  then show ?case by simp
next
  case (2 C c cs)
  show ?case
  proof (cases "C c")
    case True
    have "filter (\<lambda>c. \<not> C c) (dropWhile C cs) = filter (\<lambda>c. \<not> C c) cs"
      by (induction cs) auto
    with True 2 show ?thesis by simp
  next
    case False
    with 2 show ?thesis by simp
  qed
qed

lemma clean_text_filter: "clean_text U text = py_strip U (filter (safe_char U) text)"
  by (simp add: clean_text_def re_sub_class_filter)

lemma set_py_strip: "set (py_strip U s) \<subseteq> set s"
  by (auto simp: py_strip_def dest!: set_dropWhileD)

lemma dropWhile_fixed: "xs = [] \<or> \<not> P (hd xs) \<Longrightarrow> dropWhile P xs = xs"
  by (cases xs) auto

lemma hd_dropWhile_rev:
  assumes "d = [] \<or> \<not> P (hd d)" and "dropWhile P (rev d) \<noteq> []"
  shows "\<not> P (last (dropWhile P (rev d)))"
proof -
  from assms(2) have "d \<noteq> []" by auto
  with assms(1) have nP: "\<not> P (hd d)" by simp
  obtain zs where zs: "rev d = zs @ dropWhile P (rev d)"
    by (metis takeWhile_dropWhile_id)
  with assms(2) have "last (rev d) = last (dropWhile P (rev d))"
    by (metis last_appendR)
  moreover have "last (rev d) = hd d" using \<open>d \<noteq> []\<close> by (simp add: last_rev)
  ultimately show ?thesis using nP by simp
qed

lemma py_strip_idem: "py_strip U (py_strip U s) = py_strip U s"
proof -
  let ?P = "isspace U"
  let ?d = "dropWhile ?P s"
  let ?r = "dropWhile ?P (rev ?d)"
  have d: "?d = [] \<or> \<not> ?P (hd ?d)" by (metis hd_dropWhile)
  have front: "dropWhile ?P (rev ?r) = rev ?r"
  proof (rule dropWhile_fixed)
    show "rev ?r = [] \<or> \<not> ?P (hd (rev ?r))"
    proof (cases "?r = []")
      case True
      then show ?thesis by simp
    next
      case False
      from hd_dropWhile_rev [OF d False] False show ?thesis by (simp add: hd_rev)
    qed
  qed
  have "py_strip U (py_strip U s) = rev (dropWhile ?P (rev (dropWhile ?P (rev ?r))))"
    by (simp add: py_strip_def)
  also have "\<dots> = rev (dropWhile ?P ?r)" by (simp only: front rev_rev_ident)
  also have "\<dots> = rev ?r" by simp
  finally show ?thesis by (simp add: py_strip_def)
qed

section \<open>Facts about keeping first occurrences\<close>

lemma set_first_by: "set (first_by k xs) \<subseteq> set xs"
  by (induction k xs rule: first_by.induct) auto

lemma image_first_by: "k ` set (first_by k xs) = k ` set xs"
proof (induction k xs rule: first_by.induct)
  case (1 k)
  then show ?case by simp
next
  case (2 k x xs)
  have "k ` set (x # xs) = insert (k x) (k ` set (filter (\<lambda>y. k y \<noteq> k x) xs))"
    by auto
  with 2 show ?case by simp
qed

lemma distinct_first_by: "distinct (map k (first_by k xs))"
proof (induction k xs rule: first_by.induct)
  case (1 k)
  then show ?case by simp
next
  case (2 k x xs)
  have "k x \<notin> k ` set (first_by k (filter (\<lambda>y. k y \<noteq> k x) xs))"
    unfolding image_first_by by auto
  with 2 show ?case by simp
qed

lemma subseq_first_by: "subseq (first_by k xs) xs"
proof (induction k xs rule: first_by.induct)
  case (1 k)
  then show ?case by simp
next
  case (2 k x xs)
  have "subseq (first_by k (filter (\<lambda>y. k y \<noteq> k x) xs)) (filter (\<lambda>y. k y \<noteq> k x) xs)"
    by (rule 2)
  also have "subseq \<dots> xs" by simp
  finally show ?case by simp
qed

lemma first_by_filter_key:
  "first_by k (filter (\<lambda>y. P (k y)) xs) = filter (\<lambda>y. P (k y)) (first_by k xs)"
proof (induction k xs rule: first_by.induct)
  case (1 k)
  then show ?case by simp
next
  case (2 k x xs)
  have comm: "filter (\<lambda>y. k y \<noteq> k x) (filter (\<lambda>y. P (k y)) xs)
      = filter (\<lambda>y. P (k y)) (filter (\<lambda>y. k y \<noteq> k x) xs)"
    by (simp add: conj_commute)
  show ?case
  proof (cases "P (k x)")
    case True
    with 2 comm show ?thesis by simp
  next
    case False
    have "filter (\<lambda>y. P (k y)) xs = filter (\<lambda>y. P (k y)) (filter (\<lambda>y. k y \<noteq> k x) xs)"
      using False by (auto intro: filter_cong)
    with False 2 show ?thesis by simp
  qed
qed

lemma first_by_append:
  "first_by k (xs @ ys) = first_by k xs @ first_by k (filter (\<lambda>y. k y \<notin> k ` set xs) ys)"
proof (induction k xs arbitrary: ys rule: first_by.induct)
  case (1 k)
  then show ?case by simp
next
  case (2 k x xs)
  have "filter (\<lambda>y. k y \<notin> k ` set (filter (\<lambda>y. k y \<noteq> k x) xs)) (filter (\<lambda>y. k y \<noteq> k x) ys)
      = filter (\<lambda>y. k y \<notin> k ` set (x # xs)) ys"
    by (auto intro: filter_cong)
  with 2 show ?case by simp
qed

lemma first_by_distinct: "distinct (map k xs) \<Longrightarrow> first_by k xs = xs"
proof (induction xs)
  case Nil
  then show ?case by simp
next
  case (Cons x xs)
  from Cons.prems have "k x \<notin> k ` set xs" by simp
  then have "\<forall>y\<in>set xs. k y \<noteq> k x" by (metis imageI)
  then have "filter (\<lambda>y. k y \<noteq> k x) xs = xs"
    by (simp add: filter_id_conv)
  with Cons show ?case by simp
qed

lemma subseq_distinct: "subseq xs ys \<Longrightarrow> distinct ys \<Longrightarrow> distinct xs"
proof (induction rule: list_emb.induct)
  case (list_emb_Nil ys)
  then show ?case by simp
next
  case (list_emb_Cons xs ys y)
  then show ?case by simp
next
  case (list_emb_Cons2 x y xs ys)
  then have "x \<notin> set xs" by (auto elim: list_emb_set)
  with list_emb_Cons2 show ?case by simp
qed

lemma first_by_keeps_first:
  "k x \<notin> k ` set A \<Longrightarrow> x \<in> set (first_by k (A @ x # B))"
  by (simp add: first_by_append)

lemma first_by_kept_or_earlier:
  "x \<in> set (first_by k (A @ x # B)) \<or>
   (\<exists>y\<in>set A. k y = k x \<and> y \<in> set (first_by k (A @ x # B)))"
proof (cases "k x \<in> k ` set A")
  case False
  then have "x \<in> set (first_by k (A @ x # B))" by (rule first_by_keeps_first)
  then show ?thesis by (rule disjI1)
next
  case True
  then have "k x \<in> k ` set (first_by k A)" by (simp only: image_first_by)
  then obtain y where y: "y \<in> set (first_by k A)" "k x = k y" by (rule imageE)
  from y(1) set_first_by [of k A] have "y \<in> set A" by (rule subsetD [rotated])
  moreover have "set (first_by k A) \<subseteq> set (first_by k (A @ x # B))"
    by (simp only: first_by_append set_append Un_upper1)
  with y(1) have "y \<in> set (first_by k (A @ x # B))" by (rule subsetD [rotated])
  ultimately have "\<exists>y\<in>set A. k y = k x \<and> y \<in> set (first_by k (A @ x # B))"
    using y(2) by (intro bexI [of _ y] conjI) simp_all
  then show ?thesis by (rule disjI2)
qed

section \<open>The second loop\<close>

lemma filter_entry_eq:
  "filter_entry U g q s e =
     (if filtered_out g q e \<or> safe_title_of U e \<in> seen_titles s then s
      else s\<lparr>seen_titles := insert (safe_title_of U e) (seen_titles s),
             filtered_results := filtered_results s @ [article_of U e]\<rparr>)"
  by (simp add: filter_entry_def filtered_out_def safe_title_of_def article_of_def
      gov_source_def quiver_source_def kansas_source_def Let_def)

lemma filter_loop:
  "filtered_results (foldl (filter_entry U g q) s es) =
     filtered_results s @ map (article_of U)
       (first_by (safe_title_of U)
          (filter (\<lambda>e. \<not> filtered_out g q e \<and> safe_title_of U e \<notin> seen_titles s) es))"
proof (induction es arbitrary: s)
  case Nil
  then show ?case by simp
next
  case (Cons e es)
  show ?case
  proof (cases "filtered_out g q e \<or> safe_title_of U e \<in> seen_titles s")
    case True
    then have "filter_entry U g q s e = s" by (simp add: filter_entry_eq)
    with True Cons show ?thesis by auto
  next
    case False
    let ?s = "s\<lparr>seen_titles := insert (safe_title_of U e) (seen_titles s),
             filtered_results := filtered_results s @ [article_of U e]\<rparr>"
    have step: "filter_entry U g q s e = ?s" using False by (simp add: filter_entry_eq)
    have "filter (\<lambda>y. safe_title_of U y \<noteq> safe_title_of U e)
            (filter (\<lambda>e. \<not> filtered_out g q e \<and> safe_title_of U e \<notin> seen_titles s) es)
        = filter (\<lambda>e'. \<not> filtered_out g q e' \<and> safe_title_of U e' \<notin> seen_titles ?s) es"
      by (auto intro: filter_cong)
    with False show ?thesis by (simp add: step Cons)
  qed
qed

lemma filter_all_eq:
  "filtered_results (filter_all U g q es) =
     map (article_of U) (first_by (safe_title_of U) (filter (\<lambda>e. \<not> filtered_out g q e) es))"
  by (simp add: filter_all_def filter_loop)

section \<open>The first loop\<close>

lemma converted_entry_link: "converted_entry r = Inr c \<Longrightarrow> r_url r = Some (e_link c)"
  unfolding converted_entry_def by (simp split: option.splits) auto

lemma merge_entry_cases:
  assumes "merge_entry s r = Inr s'"
  obtains (seen) u where "r_url r = Some u" "u \<in> seen_links s" "s' = s"
  | (new) u c where "r_url r = Some u" "u \<notin> seen_links s" "converted_entry r = Inr c"
      "s' = s\<lparr>all_entries := all_entries s @ [c], seen_links := insert u (seen_links s)\<rparr>"
proof (cases "r_url r")
  case None
  with assms show ?thesis by (simp add: merge_entry_def)
next
  case (Some u)
  show ?thesis
  proof (cases "u \<in> seen_links s")
    case True
    with Some assms have "s' = s" by (simp add: merge_entry_def)
    with Some True show ?thesis by (rule seen)
  next
    case False
    show ?thesis
    proof (cases "converted_entry r")
      case (Inl x)
      with Some False assms show ?thesis by (simp add: merge_entry_def)
    next
      case (Inr c)
      with Some False assms
      have "s' = s\<lparr>all_entries := all_entries s @ [c], seen_links := insert u (seen_links s)\<rparr>"
        by (simp add: merge_entry_def)
      with Some False Inr show ?thesis by (rule new)
    qed
  qed
qed

lemma links_of_Cons: "links_of (r # p) = (case r_url r of None \<Rightarrow> {} | Some u \<Rightarrow> {u}) \<union> links_of p"
  by (auto simp: links_of_def split: option.splits)

lemma merge_results_ok:
  "merge_results s p = (s', None) \<Longrightarrow>
     warnings s' = warnings s \<and> None \<notin> r_url ` set p \<and>
     map Inr (all_entries s') = map Inr (all_entries s) @
       map converted_entry (first_by r_url (filter (\<lambda>r. r_url r \<notin> Some ` seen_links s) p)) \<and>
     seen_links s' = seen_links s \<union> links_of p"
proof (induction p arbitrary: s)
  case Nil
  then show ?case by (simp add: links_of_def)
next
  case (Cons r p)
  from Cons.prems obtain s1 where s1: "merge_entry s r = Inr s1" "merge_results s1 p = (s', None)"
    by (auto split: sum.splits)
  note IH = Cons.IH [OF s1(2)]
  from s1(1) show ?case
  proof (cases rule: merge_entry_cases)
    case (seen u)
    have a: "warnings s' = warnings s" using IH seen by simp
    have b: "None \<notin> r_url ` set (r # p)" using IH seen by simp
    have c: "filter (\<lambda>r. r_url r \<notin> Some ` seen_links s) (r # p)
        = filter (\<lambda>r. r_url r \<notin> Some ` seen_links s) p"
      using seen by simp
    have d: "seen_links s' = seen_links s \<union> links_of (r # p)"
      using IH seen by (simp add: links_of_Cons insert_absorb)
    show ?thesis using a b c d IH seen(3) by simp
  next
    case (new u c)
    have sl: "seen_links s1 = insert u (seen_links s)" and ae: "all_entries s1 = all_entries s @ [c]"
      and w: "warnings s1 = warnings s"
      using new(4) by simp_all
    have eq: "filter (\<lambda>y. r_url y \<noteq> r_url r) (filter (\<lambda>r. r_url r \<notin> Some ` seen_links s) p)
        = filter (\<lambda>r. r_url r \<notin> Some ` seen_links s1) p"
      unfolding sl filter_filter using new(1) by (intro filter_cong) auto
    have nin: "r_url r \<notin> Some ` seen_links s" using new(1,2) by auto
    have a: "warnings s' = warnings s" using IH w by simp
    have b: "None \<notin> r_url ` set (r # p)" using IH new(1) by simp
    have c: "first_by r_url (filter (\<lambda>r. r_url r \<notin> Some ` seen_links s) (r # p))
        = r # first_by r_url (filter (\<lambda>r. r_url r \<notin> Some ` seen_links s1) p)"
      using nin eq by simp
    have d: "seen_links s' = seen_links s \<union> links_of (r # p)"
      using IH sl new(1) by (simp add: links_of_Cons)
    have e: "map Inr (all_entries s') = map Inr (all_entries s) @
       map converted_entry (first_by r_url (filter (\<lambda>r. r_url r \<notin> Some ` seen_links s) (r # p)))"
      unfolding c using IH ae new(3) by simp
    show ?thesis using a b d e by blast
  qed
qed

lemma links_of_Nil: "links_of [] = {}"
  by (simp add: links_of_def)

lemma has_keys_converted: "has_keys r \<longleftrightarrow> (\<exists>c. converted_entry r = Inr c)"
proof (cases "r_title r")
  case None
  then show ?thesis by (simp add: has_keys_def converted_entry_def)
next
  case t: (Some t)
  show ?thesis
  proof (cases "r_url r")
    case None
    with t show ?thesis by (simp add: has_keys_def converted_entry_def)
  next
    case u: (Some u)
    show ?thesis
    proof (cases "r_publisher r")
      case None
      with t u show ?thesis by (simp add: has_keys_def converted_entry_def)
    next
      case p: (Some p)
      show ?thesis
      proof (cases p)
        case None
        with t u p show ?thesis by (simp add: has_keys_def converted_entry_def)
      next
        case m: (Some m)
        show ?thesis
        proof (cases "r_published_date r")
          case None
          with t u p m show ?thesis by (simp add: has_keys_def converted_entry_def)
        next
          case (Some d)
          with t u p m show ?thesis by (simp add: has_keys_def converted_entry_def)
        qed
      qed
    qed
  qed
qed

lemma merge_entry_raises: "(\<exists>x. merge_entry s r = Inl x) \<longleftrightarrow> raises_at (seen_links s) r"
proof (cases "r_url r")
  case None
  then show ?thesis by (simp add: merge_entry_def raises_at_def)
next
  case (Some u)
  show ?thesis
  proof (cases "u \<in> seen_links s")
    case True
    with Some show ?thesis by (simp add: merge_entry_def raises_at_def)
  next
    case False
    show ?thesis
    proof (cases "converted_entry r")
      case (Inl x)
      then have "\<not> has_keys r" by (simp add: has_keys_converted)
      with Inl Some False show ?thesis by (simp add: merge_entry_def raises_at_def)
    next
      case (Inr c)
      then have "has_keys r" by (simp add: has_keys_converted)
      with Inr Some False show ?thesis by (simp add: merge_entry_def raises_at_def)
    qed
  qed
qed

lemma merge_entry_seen_links:
  assumes "merge_entry s r = Inr s1"
  shows "seen_links s1 = seen_links s \<union> links_of [r]"
  using assms
proof (cases rule: merge_entry_cases)
  case (seen u)
  then show ?thesis by (simp add: links_of_Cons links_of_Nil insert_absorb)
next
  case (new u c)
  then show ?thesis by (simp add: links_of_Cons links_of_Nil)
qed

lemma merge_results_processed:
  "merge_results s rs = (s', err) \<Longrightarrow>
     merge_results s (processed (seen_links s) rs) = (s', None) \<and>
     (err = None \<longleftrightarrow> processed (seen_links s) rs = rs)"
proof (induction rs arbitrary: s)
  case Nil
  then show ?case by simp
next
  case (Cons r rs)
  show ?case
  proof (cases "merge_entry s r")
    case (Inl x)
    then have "raises_at (seen_links s) r" using merge_entry_raises [of s r] by blast
    moreover from Inl Cons.prems have "s' = s" "err = Some x" by simp_all
    ultimately show ?thesis by simp
  next
    case (Inr s1)
    then have nr: "\<not> raises_at (seen_links s) r" using merge_entry_raises [of s r] by simp
    from Inr have sl: "seen_links s1 = seen_links s \<union> links_of [r]"
      by (rule merge_entry_seen_links)
    from Inr Cons.prems have "merge_results s1 rs = (s', err)" by simp
    from Cons.IH [OF this] have "merge_results s1 (processed (seen_links s1) rs) = (s', None)"
      and "err = None \<longleftrightarrow> processed (seen_links s1) rs = rs"
      by simp_all
    with nr Inr sl show ?thesis by simp
  qed
qed

lemma links_of_image: "None \<notin> r_url ` set p \<Longrightarrow> Some ` links_of p = r_url ` set p"
proof -
  assume n: "None \<notin> r_url ` set p"
  show ?thesis
  proof (rule set_eqI)
    fix x
    show "x \<in> Some ` links_of p \<longleftrightarrow> x \<in> r_url ` set p"
    proof (cases x)
      case None
      with n show ?thesis by (auto simp: links_of_def)
    next
      case (Some u)
      then show ?thesis by (auto simp: links_of_def)
    qed
  qed
qed

lemma links_of_append: "links_of (p @ q) = links_of p \<union> links_of q"
  by (auto simp: links_of_def)

lemma first_by_unseen_append:
  assumes "None \<notin> r_url ` set p"
  shows "first_by r_url (filter (\<lambda>r. r_url r \<notin> Some ` S) (p @ q)) =
     first_by r_url (filter (\<lambda>r. r_url r \<notin> Some ` S) p) @
     first_by r_url (filter (\<lambda>r. r_url r \<notin> Some ` (S \<union> links_of p)) q)"
proof -
  have img: "Some ` (S \<union> links_of p) = Some ` S \<union> r_url ` set p"
    using links_of_image [OF assms] by (simp add: image_Un)
  have "filter (\<lambda>y. r_url y \<notin> r_url ` set (filter (\<lambda>r. r_url r \<notin> Some ` S) p))
          (filter (\<lambda>r. r_url r \<notin> Some ` S) q)
      = filter (\<lambda>r. r_url r \<notin> Some ` (S \<union> links_of p)) q"
    unfolding img filter_filter by (intro filter_cong) auto
  then show ?thesis by (simp add: first_by_append)
qed

lemma search_one_processed:
  "None \<notin> r_url ` set (processed (seen_links s) (returned (get_news g t))) \<and>
   map Inr (all_entries (search_one get_news g s t)) = map Inr (all_entries s) @
     map converted_entry (first_by r_url (filter (\<lambda>r. r_url r \<notin> Some ` seen_links s)
       (processed (seen_links s) (returned (get_news g t))))) \<and>
   seen_links (search_one get_news g s t) =
     seen_links s \<union> links_of (processed (seen_links s) (returned (get_news g t))) \<and>
   warnings (search_one get_news g s t) = warnings s @
     (if raised (get_news g t) \<or>
         processed (seen_links s) (returned (get_news g t)) \<noteq> returned (get_news g t)
      then [t] else [])"
proof (cases "get_news g t")
  case (Raises x)
  then have "search_one get_news g s t = s\<lparr>warnings := warnings s @ [t]\<rparr>"
    by (simp add: search_one_def)
  with Raises show ?thesis by (simp add: returned_def raised_def links_of_Nil)
next
  case (Returns rs)
  obtain s' err where m: "merge_results s rs = (s', err)" by (cases "merge_results s rs")
  from merge_results_processed [OF m]
  have p: "merge_results s (processed (seen_links s) rs) = (s', None)"
    and e: "err = None \<longleftrightarrow> processed (seen_links s) rs = rs"
    by simp_all
  note ok = merge_results_ok [OF p]
  have ret: "returned (get_news g t) = rs" "\<not> raised (get_news g t)"
    using Returns by (simp_all add: returned_def raised_def)
  show ?thesis
  proof (cases err)
    case None
    with Returns m have "search_one get_news g s t = s'" by (simp add: search_one_def)
    with ok e None ret show ?thesis by simp
  next
    case (Some x)
    with Returns m have "search_one get_news g s t = s'\<lparr>warnings := warnings s' @ [t]\<rparr>"
      by (simp add: search_one_def)
    with ok e Some ret show ?thesis by simp
  qed
qed

lemma fetch_loop_processed:
  "None \<notin> r_url ` set (concat (processed_all get_news g (seen_links s) ts)) \<and>
   map Inr (all_entries (foldl (search_one get_news g) s ts)) = map Inr (all_entries s) @
     map converted_entry (first_by r_url (filter (\<lambda>r. r_url r \<notin> Some ` seen_links s)
       (concat (processed_all get_news g (seen_links s) ts)))) \<and>
   seen_links (foldl (search_one get_news g) s ts) =
     seen_links s \<union> links_of (concat (processed_all get_news g (seen_links s) ts)) \<and>
   warnings (foldl (search_one get_news g) s ts) =
     warnings s @ warned get_news g (seen_links s) ts"
proof (induction ts arbitrary: s)
  case Nil
  then show ?case by (simp add: links_of_Nil)
next
  case (Cons t ts)
  let ?s1 = "search_one get_news g s t"
  let ?p = "processed (seen_links s) (returned (get_news g t))"
  let ?ps = "processed_all get_news g (seen_links s \<union> links_of ?p) ts"
  from search_one_processed [of s get_news g t] have
    p3: "None \<notin> r_url ` set ?p" and
    p4: "map Inr (all_entries ?s1) = map Inr (all_entries s) @
         map converted_entry (first_by r_url (filter (\<lambda>r. r_url r \<notin> Some ` seen_links s) ?p))" and
    p5: "seen_links ?s1 = seen_links s \<union> links_of ?p" and
    p6: "warnings ?s1 = warnings s @
     (if raised (get_news g t) \<or> ?p \<noteq> returned (get_news g t) then [t] else [])"
    by simp_all
  from Cons [of ?s1] have
    q2: "None \<notin> r_url ` set (concat ?ps)" and
    q3: "map Inr (all_entries (foldl (search_one get_news g) ?s1 ts)) = map Inr (all_entries ?s1) @
          map converted_entry
            (first_by r_url (filter (\<lambda>r. r_url r \<notin> Some ` (seen_links s \<union> links_of ?p)) (concat ?ps)))" and
    q4: "seen_links (foldl (search_one get_news g) ?s1 ts) = (seen_links s \<union> links_of ?p) \<union> links_of (concat ?ps)" and
    q5: "warnings (foldl (search_one get_news g) ?s1 ts) =
      warnings ?s1 @ warned get_news g (seen_links s \<union> links_of ?p) ts"
    unfolding p5 by simp_all
  have a: "None \<notin> r_url ` set (concat (processed_all get_news g (seen_links s) (t # ts)))"
    using p3 q2 by (simp add: image_Un)
  have c: "map Inr (all_entries (foldl (search_one get_news g) s (t # ts))) = map Inr (all_entries s) @
          map converted_entry
            (first_by r_url (filter (\<lambda>r. r_url r \<notin> Some ` seen_links s)
               (concat (processed_all get_news g (seen_links s) (t # ts)))))"
    by (simp only: foldl_Cons processed_all.simps concat.simps first_by_unseen_append [OF p3] q3 p4
        map_append append_assoc)
  have e: "seen_links (foldl (search_one get_news g) s (t # ts)) =
      seen_links s \<union> links_of (concat (processed_all get_news g (seen_links s) (t # ts)))"
    using q4 by (simp add: links_of_append Un_assoc)
  have w: "warnings (foldl (search_one get_news g) s (t # ts)) =
     warnings s @ warned get_news g (seen_links s) (t # ts)"
    using q5 p6 by simp
  from a c e w show ?case by (intro conjI)
qed

lemma fetch_all_processed:
  "None \<notin> r_url ` set (concat (processed_all get_news (google_news_of days) {} search_terms)) \<and>
   map Inr (all_entries (fetch_all get_news days)) =
     map converted_entry (first_by r_url
       (concat (processed_all get_news (google_news_of days) {} search_terms))) \<and>
   seen_links (fetch_all get_news days) =
     links_of (concat (processed_all get_news (google_news_of days) {} search_terms)) \<and>
   warnings (fetch_all get_news days) = warned get_news (google_news_of days) {} search_terms"
  using fetch_loop_processed [of get_news "google_news_of days"
      "\<lparr>all_entries = [], seen_links = {}, warnings = []\<rparr>" search_terms]
  by (simp add: fetch_all_def)

lemma converted_links:
  "map Inr es = map converted_entry rs \<Longrightarrow> map (\<lambda>e. Some (e_link e)) es = map r_url rs"
proof (induction es arbitrary: rs)
  case Nil
  then show ?case by simp
next
  case (Cons e es)
  then obtain r rs' where rs: "rs = r # rs'" by (cases rs) auto
  with Cons.prems have "converted_entry r = Inr e" "map Inr es = map converted_entry rs'" by auto
  with Cons.IH rs show ?case by (simp add: converted_entry_link)
qed

lemma distinct_links_fetch_all: "distinct (map e_link (all_entries (fetch_all get_news days)))"
proof -
  from fetch_all_processed [of get_news days] have
    "map Inr (all_entries (fetch_all get_news days)) = map converted_entry (first_by r_url
       (concat (processed_all get_news (google_news_of days) {} search_terms)))"
    by simp
  then have "map (\<lambda>e. Some (e_link e)) (all_entries (fetch_all get_news days))
      = map r_url (first_by r_url (concat (processed_all get_news (google_news_of days) {} search_terms)))"
    by (rule converted_links)
  then have "distinct (map (\<lambda>e. Some (e_link e)) (all_entries (fetch_all get_news days)))"
    by (simp add: distinct_first_by)
  moreover have "map (\<lambda>e. Some (e_link e)) (all_entries (fetch_all get_news days))
      = map Some (map e_link (all_entries (fetch_all get_news days)))"
    by simp
  ultimately have "distinct (map Some (map e_link (all_entries (fetch_all get_news days))))"
    by (simp only:)
  then show ?thesis by (rule distinct_map [THEN iffD1, THEN conjunct1])
qed

lemma length_all_entries_links:
  assumes "None \<notin> r_url ` set L" and "map Inr es = map converted_entry (first_by r_url L)"
  shows "length es = card (links_of L)"
proof -
  from assms(2) have "map (\<lambda>e. Some (e_link e)) es = map r_url (first_by r_url L)"
    by (rule converted_links)
  then have "length es = length (map r_url (first_by r_url L))"
    by (metis length_map)
  also have "\<dots> = card (set (map r_url (first_by r_url L)))"
    by (rule distinct_card [symmetric]) (rule distinct_first_by)
  also have "\<dots> = card (r_url ` set L)" by (simp only: set_map image_first_by)
  also have "\<dots> = card (Some ` links_of L)" by (simp only: links_of_image [OF assms(1)])
  also have "\<dots> = card (links_of L)" by (rule card_image) simp
  finally show ?thesis .
qed


lemma processed_has_keys: "\<forall>r\<in>set rs. has_keys r \<Longrightarrow> processed seen rs = rs"
proof (induction rs arbitrary: seen)
  case Nil
  then show ?case by simp
next
  case (Cons r rs)
  from Cons.prems have "has_keys r" by simp
  then have "\<not> raises_at seen r" by (simp add: raises_at_def has_keys_def split: option.splits)
  with Cons show ?case by simp
qed


lemma processed_all_has_keys:
  "\<forall>t\<in>set ts. \<forall>r\<in>set (returned (get_news g t)). has_keys r \<Longrightarrow>
     processed_all get_news g seen ts = map (\<lambda>t. returned (get_news g t)) ts"
proof (induction ts arbitrary: seen)
  case Nil
  then show ?case by simp
next
  case (Cons t ts)
  from Cons.prems have "processed seen (returned (get_news g t)) = returned (get_news g t)"
    by (simp add: processed_has_keys)
  moreover from Cons.prems have "\<forall>t\<in>set ts. \<forall>r\<in>set (returned (get_news g t)). has_keys r"
    by simp
  ultimately show ?case using Cons.IH by simp
qed

lemma warned_has_keys:
  "\<forall>t\<in>set ts. \<forall>r\<in>set (returned (get_news g t)). has_keys r \<Longrightarrow>
     warned get_news g seen ts = filter (\<lambda>t. raised (get_news g t)) ts"
proof (induction ts arbitrary: seen)
  case Nil
  then show ?case by simp
next
  case (Cons t ts)
  from Cons.prems have "processed seen (returned (get_news g t)) = returned (get_news g t)"
    by (simp add: processed_has_keys)
  moreover from Cons.prems have "\<forall>t\<in>set ts. \<forall>r\<in>set (returned (get_news g t)). has_keys r"
    by simp
  ultimately show ?case using Cons.IH by simp
qed

lemma returned_not_raised:
  "concat (map (\<lambda>t. returned (get_news g t)) (filter (\<lambda>t. \<not> raised (get_news g t)) ts)) =
     concat (map (\<lambda>t. returned (get_news g t)) ts)"
proof (induction ts)
  case Nil
  then show ?case by simp
next
  case (Cons t ts)
  show ?case
  proof (cases "get_news g t")
    case (Raises x)
    with Cons show ?thesis by (simp add: raised_def returned_def)
  next
    case (Returns rs)
    with Cons show ?thesis by (simp add: raised_def returned_def)
  qed
qed

lemma spec_raw_count_has_keys:
  assumes "\<forall>t\<in>set search_terms. \<forall>r\<in>set (returned (get_news (google_news_of days) t)). has_keys r"
  shows "spec_raw_count get_news days =
     card (links_of (concat (map (\<lambda>t. returned (get_news (google_news_of days) t)) search_terms)))"
proof -
  let ?g = "google_news_of days"
  have w: "warnings (fetch_all get_news days) = filter (\<lambda>t. raised (get_news ?g t)) search_terms"
    using fetch_all_processed [of get_news days] warned_has_keys [where get_news = get_news and g = "google_news_of days" and ts = search_terms, OF assms] by simp
  have "successful_terms get_news days = filter (\<lambda>t. \<not> raised (get_news ?g t)) search_terms"
    unfolding successful_terms_def w by (rule filter_cong) auto
  then show ?thesis by (simp only: spec_raw_count_def returned_not_raised)
qed

lemma merged_length:
  "length (all_entries (fetch_all get_news days)) =
     length (first_by r_url (concat (processed_all get_news (google_news_of days) {} search_terms)))"
proof -
  from fetch_all_processed [of get_news days]
  have "map Inr (all_entries (fetch_all get_news days)) =
     map converted_entry (first_by r_url
       (concat (processed_all get_news (google_news_of days) {} search_terms)))"
    by simp
  then show ?thesis by (metis length_map)
qed

subsection \<open>Calls that raise\<close>

lemma merge_entry_warnings:
  "merge_entry (s\<lparr>warnings := w\<rparr>) r =
     (case merge_entry s r of Inl x \<Rightarrow> Inl x | Inr s' \<Rightarrow> Inr (s'\<lparr>warnings := w\<rparr>))"
proof (cases "r_url r")
  case None
  then show ?thesis by (simp add: merge_entry_def)
next
  case (Some u)
  show ?thesis
  proof (cases "converted_entry r")
    case (Inl x)
    with Some show ?thesis by (simp add: merge_entry_def)
  next
    case (Inr c)
    with Some show ?thesis by (simp add: merge_entry_def)
  qed
qed

lemma merge_results_warnings:
  "merge_results (s\<lparr>warnings := w\<rparr>) rs =
     (case merge_results s rs of (s', err) \<Rightarrow> (s'\<lparr>warnings := w\<rparr>, err))"
proof (induction rs arbitrary: s)
  case Nil
  then show ?case by simp
next
  case (Cons r rs)
  show ?case
  proof (cases "merge_entry s r")
    case (Inl x)
    then show ?thesis by (simp add: merge_entry_warnings)
  next
    case (Inr s1)
    then show ?thesis by (simp add: merge_entry_warnings Cons)
  qed
qed

lemma search_one_without_failed_calls:
  "\<exists>w'. search_one (without_failed_calls get_news) g (s\<lparr>warnings := w\<rparr>) t =
     (search_one get_news g s t)\<lparr>warnings := w'\<rparr>"
proof (cases "get_news g t")
  case (Raises x)
  then have "search_one (without_failed_calls get_news) g (s\<lparr>warnings := w\<rparr>) t = s\<lparr>warnings := w\<rparr>"
    by (simp add: search_one_def without_failed_calls_def)
  moreover from Raises have "search_one get_news g s t = s\<lparr>warnings := warnings s @ [t]\<rparr>"
    by (simp add: search_one_def)
  ultimately have "search_one (without_failed_calls get_news) g (s\<lparr>warnings := w\<rparr>) t =
     (search_one get_news g s t)\<lparr>warnings := w\<rparr>"
    by simp
  then show ?thesis by (rule exI)
next
  case (Returns rs)
  obtain s' err where m: "merge_results s rs = (s', err)" by (cases "merge_results s rs")
  show ?thesis
  proof (cases err)
    case None
    with Returns m have "search_one (without_failed_calls get_news) g (s\<lparr>warnings := w\<rparr>) t =
       (search_one get_news g s t)\<lparr>warnings := w\<rparr>"
      by (simp add: search_one_def without_failed_calls_def merge_results_warnings)
    then show ?thesis by (rule exI)
  next
    case (Some x)
    with Returns m have "search_one (without_failed_calls get_news) g (s\<lparr>warnings := w\<rparr>) t =
       (search_one get_news g s t)\<lparr>warnings := w @ [t]\<rparr>"
      by (simp add: search_one_def without_failed_calls_def merge_results_warnings)
    then show ?thesis by (rule exI)
  qed
qed

lemma fetch_without_failed_calls:
  "\<exists>w'. foldl (search_one (without_failed_calls get_news) g) (s\<lparr>warnings := w\<rparr>) ts =
     (foldl (search_one get_news g) s ts)\<lparr>warnings := w'\<rparr>"
proof (induction ts arbitrary: s w)
  case Nil
  have "foldl (search_one (without_failed_calls get_news) g) (s\<lparr>warnings := w\<rparr>) [] =
     (foldl (search_one get_news g) s [])\<lparr>warnings := w\<rparr>"
    by simp
  then show ?case by (rule exI)
next
  case (Cons t ts)
  from search_one_without_failed_calls [where get_news=get_news and g=g and s=s and w=w and t=t] obtain w1 where
    w1: "search_one (without_failed_calls get_news) g (s\<lparr>warnings := w\<rparr>) t =
     (search_one get_news g s t)\<lparr>warnings := w1\<rparr>" ..
  from Cons [where s="search_one get_news g s t" and w=w1] obtain w2 where
    "foldl (search_one (without_failed_calls get_news) g) ((search_one get_news g s t)\<lparr>warnings := w1\<rparr>) ts =
     (foldl (search_one get_news g) (search_one get_news g s t) ts)\<lparr>warnings := w2\<rparr>" ..
  with w1 have "foldl (search_one (without_failed_calls get_news) g) (s\<lparr>warnings := w\<rparr>) (t # ts) =
     (foldl (search_one get_news g) s (t # ts))\<lparr>warnings := w2\<rparr>"
    by simp
  then show ?case by (rule exI)
qed

lemma all_entries_without_failed_calls:
  "all_entries (fetch_all (without_failed_calls get_news) days) = all_entries (fetch_all get_news days)"
proof -
  let ?s0 = "\<lparr>all_entries = [], seen_links = {}, warnings = []\<rparr>"
  from fetch_without_failed_calls [where get_news=get_news and g="google_news_of days" and s="?s0" and w="[]" and ts=search_terms]
  obtain w' where "foldl (search_one (without_failed_calls get_news) (google_news_of days))
      (?s0\<lparr>warnings := []\<rparr>) search_terms =
     (foldl (search_one get_news (google_news_of days)) ?s0 search_terms)\<lparr>warnings := w'\<rparr>" ..
  then have "fetch_all (without_failed_calls get_news) days = (fetch_all get_news days)\<lparr>warnings := w'\<rparr>"
    by (simp add: fetch_all_def)
  then show ?thesis by simp
qed

lemma all_calls_raise:
  "\<forall>t\<in>set ts. \<exists>x. get_news g t = Raises x \<Longrightarrow>
     all_entries (foldl (search_one get_news g) s ts) = all_entries s"
proof (induction ts arbitrary: s)
  case Nil
  then show ?case by simp
next
  case (Cons t ts)
  from Cons.prems obtain x where "get_news g t = Raises x" by auto
  then have "search_one get_news g s t = s\<lparr>warnings := warnings s @ [t]\<rparr>"
    by (simp add: search_one_def)
  moreover from Cons.prems have "\<forall>t\<in>set ts. \<exists>x. get_news g t = Raises x" by simp
  ultimately show ?case using Cons.IH [where s="s\<lparr>warnings := warnings s @ [t]\<rparr>"] by simp
qed

section \<open>The whole function\<close>

lemma search_eq:
  "search_jerry_moran_news U get_news days g q =
     (filtered_results (filter_all U g q (all_entries (fetch_all get_news days))),
      length (all_entries (fetch_all get_news days)))"
  by (simp add: search_jerry_moran_news_def Let_def)

lemma search_result:
  "fst (search_jerry_moran_news U get_news days g q) =
     map (article_of U) (first_by (safe_title_of U)
       (filter (\<lambda>e. \<not> filtered_out g q e) (all_entries (fetch_all get_news days))))"
  by (simp add: search_jerry_moran_news_def Let_def filter_all_eq)

lemma search_count:
  "snd (search_jerry_moran_news U get_news days g q) = length (all_entries (fetch_all get_news days))"
  by (simp add: search_jerry_moran_news_def Let_def)

lemma subseq_kept:
  "subseq (first_by k (filter P xs)) xs"
proof -
  have "subseq (first_by k (filter P xs)) (filter P xs)" by (rule subseq_first_by)
  also have "subseq (filter P xs) xs" by simp
  finally show ?thesis .
qed

lemma map_link_article: "map a_link (map (article_of U) es) = map e_link es"
  by (simp add: article_of_def)

lemma map_title_article: "map a_title (map (article_of U) es) = map (safe_title_of U) es"
  by (simp add: article_of_def)

lemma article_origin:
  assumes "a \<in> set (fst (search_jerry_moran_news U get_news days g q))"
  obtains e where "e \<in> set (all_entries (fetch_all get_news days))" "a = article_of U e"
    "\<not> filtered_out g q e"
proof -
  let ?E = "all_entries (fetch_all get_news days)"
  let ?K = "first_by (safe_title_of U) (filter (\<lambda>e. \<not> filtered_out g q e) ?E)"
  from assms have "a \<in> article_of U ` set ?K" by (simp only: search_result set_map)
  then obtain e where e: "a = article_of U e" "e \<in> set ?K" by (rule imageE)
  from e(2) set_first_by [of "safe_title_of U" "filter (\<lambda>e. \<not> filtered_out g q e) ?E"]
  have "e \<in> set (filter (\<lambda>e. \<not> filtered_out g q e) ?E)" by (rule subsetD [rotated])
  then have "e \<in> set ?E" "\<not> filtered_out g q e" by simp_all
  with e(1) show ?thesis by (intro that)
qed

lemma article_origin_by_link:
  assumes "a \<in> set (fst (search_jerry_moran_news U get_news days g q))"
    and "e \<in> set (all_entries (fetch_all get_news days))" and "e_link e = a_link a"
  shows "a = article_of U e \<and> \<not> filtered_out g q e"
proof -
  from assms(1) obtain e0 where e0: "e0 \<in> set (all_entries (fetch_all get_news days))"
    "a = article_of U e0" "\<not> filtered_out g q e0"
    by (rule article_origin)
  have "inj_on e_link (set (all_entries (fetch_all get_news days)))"
    using distinct_links_fetch_all [of get_news days] by (simp add: distinct_map)
  moreover have "e_link e = e_link e0" using assms(3) e0(2) by (simp add: article_of_def)
  ultimately have "e = e0" using assms(2) e0(1) by (rule inj_onD)
  with e0 show ?thesis by simp
qed

lemma unfiltered_kept_or_earlier:
  assumes "all_entries (fetch_all get_news days) = xs @ e # ys" and "\<not> filtered_out g q e"
  shows "article_of U e \<in> set (fst (search_jerry_moran_news U get_news days g q)) \<or>
    (\<exists>x\<in>set xs. \<not> filtered_out g q x \<and> safe_title_of U x = safe_title_of U e \<and>
       article_of U x \<in> set (fst (search_jerry_moran_news U get_news days g q)))"
proof -
  let ?P = "\<lambda>e. \<not> filtered_out g q e"
  let ?K = "first_by (safe_title_of U) (filter ?P xs @ e # filter ?P ys)"
  have res: "set (fst (search_jerry_moran_news U get_news days g q)) = article_of U ` set ?K"
    using assms by (simp add: search_result)
  from first_by_kept_or_earlier [of e "safe_title_of U" "filter ?P xs" "filter ?P ys"]
  show ?thesis
  proof
    assume "e \<in> set ?K"
    then have "article_of U e \<in> article_of U ` set ?K" by (rule imageI)
    then show ?thesis unfolding res by (rule disjI1)
  next
    assume "\<exists>y\<in>set (filter ?P xs). safe_title_of U y = safe_title_of U e \<and> y \<in> set ?K"
    then obtain y where y: "y \<in> set (filter ?P xs)" "safe_title_of U y = safe_title_of U e"
      "y \<in> set ?K"
      by blast
    from y(1) have y1: "y \<in> set xs" "?P y" by simp_all
    from y(3) have "article_of U y \<in> article_of U ` set ?K" by (rule imageI)
    with y1 y(2) have "\<exists>x\<in>set xs. \<not> filtered_out g q x \<and> safe_title_of U x = safe_title_of U e \<and>
       article_of U x \<in> article_of U ` set ?K"
      by (intro bexI [of _ y] conjI)
    then show ?thesis unfolding res by (rule disjI2)
  qed
qed

lemma unfiltered_first_kept:
  assumes "all_entries (fetch_all get_news days) = xs @ e # ys" and "\<not> filtered_out g q e"
    and "\<forall>x\<in>set xs. filtered_out g q x \<or> safe_title_of U x \<noteq> safe_title_of U e"
  shows "article_of U e \<in> set (fst (search_jerry_moran_news U get_news days g q))"
proof -
  let ?P = "\<lambda>e. \<not> filtered_out g q e"
  let ?K = "first_by (safe_title_of U) (filter ?P xs @ e # filter ?P ys)"
  have res: "set (fst (search_jerry_moran_news U get_news days g q)) = article_of U ` set ?K"
    using assms(1,2) by (simp add: search_result)
  have "safe_title_of U e \<notin> safe_title_of U ` set (filter ?P xs)"
  proof
    assume "safe_title_of U e \<in> safe_title_of U ` set (filter ?P xs)"
    then obtain x where x: "safe_title_of U e = safe_title_of U x" "x \<in> set (filter ?P xs)"
      by (rule imageE)
    from x(2) have "x \<in> set xs" "\<not> filtered_out g q x" by simp_all
    with assms(3) have "safe_title_of U x \<noteq> safe_title_of U e" by blast
    with x(1) show False by simp
  qed
  then have "e \<in> set ?K" by (rule first_by_keeps_first)
  then have "article_of U e \<in> article_of U ` set ?K" by (rule imageI)
  then show ?thesis unfolding res .
qed

lemma safe_char_eq:
  "safe_char U = (\<lambda>c. isalnum U c \<or> c = of_char CHR ''_'' \<or> isspace U c \<or>
     c \<in> set (ustr ''-.,:;!?()'') \<or> c = 39 \<or> c = 34)"
  by (rule ext) (simp add: safe_char_def is_word_def disj_assoc)

section \<open>Concrete runs\<close>

lemmas run_defs = fetch_all_def search_terms_def search_one_def record_of_def
      entry_of_def merge_entry_def converted_entry_def ustr_def

lemmas clean_defs = filtered_out_def gov_source_def quiver_source_def article_of_def safe_title_of_def
  clean_text_filter py_strip_def safe_char_def is_word_def ascii_db_def kansas_source_def kansas_outlets_def

lemma demo_fetch:
  "all_entries (fetch_all demo_news 3) =
     [entry_of ''Farm Bill - KWCH'' ''x/1'' ''KWCH'' ''Mon'',
      entry_of ''Farm Bill - WIBW'' ''x/2'' ''WIBW'' ''Tue'',
      entry_of ''Grant - Example.gov'' ''x/3'' ''Example.gov'' ''Wed'',
      entry_of ''Grant - CNN'' ''x/4'' ''CNN'' ''Thu'',
      entry_of ''Trades'' ''x/5'' ''Quiver Quantitative'' ''Fri'']"
  by (simp add: run_defs demo_news_def)

lemma demo_warnings: "warnings (fetch_all demo_news 3) = [ustr ''Senator Moran'']"
  by (simp add: run_defs demo_news_def)

lemma demo_result_filtered:
  "fst (search_jerry_moran_news ascii_db demo_news 3 True True) =
     [\<lparr>a_title = ustr ''Farm Bill'', a_media = ustr ''KWCH'', a_link = ustr ''x/1'',
       a_is_kansas = True, a_published = ustr ''Mon''\<rparr>,
      \<lparr>a_title = ustr ''Grant'', a_media = ustr ''CNN'', a_link = ustr ''x/4'',
       a_is_kansas = False, a_published = ustr ''Thu''\<rparr>]"
  by (simp add: search_result demo_fetch entry_of_def clean_defs ustr_def)

lemma demo_result_unfiltered:
  "fst (search_jerry_moran_news ascii_db demo_news 3 False False) =
     [\<lparr>a_title = ustr ''Farm Bill'', a_media = ustr ''KWCH'', a_link = ustr ''x/1'',
       a_is_kansas = True, a_published = ustr ''Mon''\<rparr>,
      \<lparr>a_title = ustr ''Grant'', a_media = ustr ''Example.gov'', a_link = ustr ''x/3'',
       a_is_kansas = False, a_published = ustr ''Wed''\<rparr>,
      \<lparr>a_title = ustr ''Trades'', a_media = ustr ''Quiver Quantitative'', a_link = ustr ''x/5'',
       a_is_kansas = False, a_published = ustr ''Fri''\<rparr>]"
  by (simp add: search_result demo_fetch entry_of_def clean_defs ustr_def)

lemma demo_safe_titles:
  "safe_title_of ascii_db (entry_of ''Farm Bill - KWCH'' ''x/1'' ''KWCH'' ''Mon'') = ustr ''Farm Bill''"
  "safe_title_of ascii_db (entry_of ''Farm Bill - WIBW'' ''x/2'' ''WIBW'' ''Tue'') = ustr ''Farm Bill''"
  "safe_title_of ascii_db (entry_of ''Grant - Example.gov'' ''x/3'' ''Example.gov'' ''Wed'') = ustr ''Grant''"
  "safe_title_of ascii_db (entry_of ''Grant - CNN'' ''x/4'' ''CNN'' ''Thu'') = ustr ''Grant''"
  "safe_title_of ascii_db (entry_of ''Trades'' ''x/5'' ''Quiver Quantitative'' ''Fri'') = ustr ''Trades''"
  by (simp_all add: entry_of_def clean_defs ustr_def)

lemma demo_sources:
  "gov_source (entry_of ''Grant - Example.gov'' ''x/3'' ''Example.gov'' ''Wed'')"
  "\<not> quiver_source (entry_of ''Grant - Example.gov'' ''x/3'' ''Example.gov'' ''Wed'')"
  "\<not> gov_source (entry_of ''Grant - CNN'' ''x/4'' ''CNN'' ''Thu'')"
  "\<not> quiver_source (entry_of ''Grant - CNN'' ''x/4'' ''CNN'' ''Thu'')"
  "\<not> gov_source (entry_of ''Farm Bill - KWCH'' ''x/1'' ''KWCH'' ''Mon'')"
  "\<not> quiver_source (entry_of ''Farm Bill - KWCH'' ''x/1'' ''KWCH'' ''Mon'')"
  "\<not> gov_source (entry_of ''Farm Bill - WIBW'' ''x/2'' ''WIBW'' ''Tue'')"
  "\<not> quiver_source (entry_of ''Farm Bill - WIBW'' ''x/2'' ''WIBW'' ''Tue'')"
  "quiver_source (entry_of ''Trades'' ''x/5'' ''Quiver Quantitative'' ''Fri'')"
  "\<not> gov_source (entry_of ''Trades'' ''x/5'' ''Quiver Quantitative'' ''Fri'')"
  by (simp_all add: entry_of_def gov_source_def quiver_source_def ustr_def)

lemma partial_fetch:
  "fetch_all partial_news 3 =
     \<lparr>all_entries = [entry_of ''Farm Bill'' ''x/1'' ''KWCH'' ''Mon''],
      seen_links = {ustr ''x/1''}, warnings = search_terms\<rparr>"
  by (simp add: run_defs partial_news_def)

lemma partial_result:
  "search_jerry_moran_news ascii_db partial_news 3 True True =
     ([\<lparr>a_title = ustr ''Farm Bill'', a_media = ustr ''KWCH'', a_link = ustr ''x/1'',
        a_is_kansas = True, a_published = ustr ''Mon''\<rparr>], 1)"
proof -
  have "fst (search_jerry_moran_news ascii_db partial_news 3 True True) =
     [\<lparr>a_title = ustr ''Farm Bill'', a_media = ustr ''KWCH'', a_link = ustr ''x/1'',
        a_is_kansas = True, a_published = ustr ''Mon''\<rparr>]"
    by (simp add: search_result partial_fetch entry_of_def clean_defs ustr_def)
  moreover have "snd (search_jerry_moran_news ascii_db partial_news 3 True True) = 1"
    by (simp add: search_count partial_fetch)
  ultimately show ?thesis by (simp add: prod_eq_iff)
qed

lemma suffix_fetch:
  "all_entries (fetch_all suffix_news 3) = [entry_of ''A - K_W B'' ''x/1'' ''K_W'' ''Mon'']"
  by (simp add: run_defs suffix_news_def)

lemma suffix_result:
  "fst (search_jerry_moran_news ascii_db suffix_news 3 True True) =
     [\<lparr>a_title = ustr ''A B'', a_media = ustr ''K_W'', a_link = ustr ''x/1'',
       a_is_kansas = False, a_published = ustr ''Mon''\<rparr>]"
  by (simp add: search_result suffix_fetch entry_of_def clean_defs ustr_def)

lemmas processed_defs = search_terms_def returned_def raised_def raises_at_def has_keys_def
  record_of_def links_of_Cons links_of_Nil ustr_def

lemma demo_has_keys:
  "\<forall>t\<in>set search_terms. \<forall>r\<in>set (returned (demo_news (google_news_of 3) t)). has_keys r"
  by (simp add: processed_defs demo_news_def)



lemma partial_processed:
  "processed_all partial_news (google_news_of 3) {} search_terms =
     [[record_of ''Farm Bill'' ''x/1'' ''KWCH'' ''Mon''], [], [], [], [], [], []]"
  by (simp add: processed_defs partial_news_def)

lemma partial_warned:
  "warned partial_news (google_news_of 3) {} search_terms = search_terms"
  by (simp add: processed_defs partial_news_def)

section \<open>Properties\<close>

text \<open>
  C1: in every run, no two articles of the returned list have the same link, and no two
  have the same cleaned title (the strings are compared as they are, case included).
\<close>

theorem result_links_and_titles_distinct:
  "distinct (map a_link (fst (search_jerry_moran_news U get_news days exclude_gov exclude_quiver))) \<and>
   distinct (map a_title (fst (search_jerry_moran_news U get_news days exclude_gov exclude_quiver)))"
proof -
  let ?E = "all_entries (fetch_all get_news days)"
  let ?K = "first_by (safe_title_of U) (filter (\<lambda>e. \<not> filtered_out exclude_gov exclude_quiver e) ?E)"
  have "subseq (map e_link ?K) (map e_link ?E)"
    by (rule subseq_map [OF subseq_kept])
  then have "distinct (map e_link ?K)"
    using distinct_links_fetch_all by (rule subseq_distinct)
  moreover have "distinct (map (safe_title_of U) ?K)" by (rule distinct_first_by)
  ultimately show ?thesis
    by (simp only: search_result map_link_article map_title_article)
qed

text \<open>
  C2: every returned article comes from a merged record with its link. When
  \<open>exclude_gov\<close> is enabled, the raw publisher name of that record does not contain
  \<^verbatim>\<open>.gov\<close>; when \<open>exclude_quiver\<close> is enabled, it does not contain
  \<^verbatim>\<open>Quiver Quantitative\<close>. When \<open>exclude_gov\<close> is disabled, a merged record whose publisher
  name contains \<^verbatim>\<open>.gov\<close> and that the other filter does not drop is returned, unless an
  earlier record with the same cleaned title is; likewise for \<open>exclude_quiver\<close>.
\<close>

theorem source_filters:
  "(\<forall>a\<in>set (fst (search_jerry_moran_news U get_news days exclude_gov exclude_quiver)).
      \<exists>e\<in>set (all_entries (fetch_all get_news days)). e_link e = a_link a) \<and>
   (exclude_gov \<longrightarrow>
      (\<forall>a\<in>set (fst (search_jerry_moran_news U get_news days exclude_gov exclude_quiver)).
       \<forall>e\<in>set (all_entries (fetch_all get_news days)).
         e_link e = a_link a \<longrightarrow> \<not> py_in (ustr ''.gov'') (e_source_title e))) \<and>
   (exclude_quiver \<longrightarrow>
      (\<forall>a\<in>set (fst (search_jerry_moran_news U get_news days exclude_gov exclude_quiver)).
       \<forall>e\<in>set (all_entries (fetch_all get_news days)).
         e_link e = a_link a \<longrightarrow> \<not> py_in (ustr ''Quiver Quantitative'') (e_source_title e))) \<and>
   (\<not> exclude_gov \<longrightarrow>
      (\<forall>xs e ys. all_entries (fetch_all get_news days) = xs @ e # ys \<and>
         py_in (ustr ''.gov'') (e_source_title e) \<and>
         \<not> (exclude_quiver \<and> py_in (ustr ''Quiver Quantitative'') (e_source_title e)) \<longrightarrow>
         article_of U e \<in> set (fst (search_jerry_moran_news U get_news days exclude_gov exclude_quiver)) \<or>
         (\<exists>x\<in>set xs. safe_title_of U x = safe_title_of U e \<and>
            article_of U x \<in> set (fst (search_jerry_moran_news U get_news days exclude_gov exclude_quiver))))) \<and>
   (\<not> exclude_quiver \<longrightarrow>
      (\<forall>xs e ys. all_entries (fetch_all get_news days) = xs @ e # ys \<and>
         py_in (ustr ''Quiver Quantitative'') (e_source_title e) \<and>
         \<not> (exclude_gov \<and> py_in (ustr ''.gov'') (e_source_title e)) \<longrightarrow>
         article_of U e \<in> set (fst (search_jerry_moran_news U get_news days exclude_gov exclude_quiver)) \<or>
         (\<exists>x\<in>set xs. safe_title_of U x = safe_title_of U e \<and>
            article_of U x \<in> set (fst (search_jerry_moran_news U get_news days exclude_gov exclude_quiver)))))"
  (is "?A \<and> ?B \<and> ?C \<and> ?D \<and> ?E")
proof -
  let ?res = "fst (search_jerry_moran_news U get_news days exclude_gov exclude_quiver)"
  let ?all = "all_entries (fetch_all get_news days)"
  have A: ?A
  proof
    fix a assume "a \<in> set ?res"
    then obtain e where "e \<in> set ?all" "a = article_of U e" by (rule article_origin)
    then show "\<exists>e\<in>set ?all. e_link e = a_link a" by (auto simp: article_of_def)
  qed
  have origin: "\<not> filtered_out exclude_gov exclude_quiver e"
    if "a \<in> set ?res" "e \<in> set ?all" "e_link e = a_link a" for a e
    using article_origin_by_link [OF that] by simp
  have B: ?B using origin by (auto simp: filtered_out_def gov_source_def)
  have C: ?C using origin by (auto simp: filtered_out_def quiver_source_def)
  have keep: "article_of U e \<in> set ?res \<or>
      (\<exists>x\<in>set xs. safe_title_of U x = safe_title_of U e \<and> article_of U x \<in> set ?res)"
    if "?all = xs @ e # ys" "\<not> filtered_out exclude_gov exclude_quiver e" for xs e ys
    using unfiltered_kept_or_earlier [OF that] by blast
  have D: ?D
  proof (intro impI allI)
    fix xs e ys
    assume g: "\<not> exclude_gov" and h: "?all = xs @ e # ys \<and>
         py_in (ustr ''.gov'') (e_source_title e) \<and>
         \<not> (exclude_quiver \<and> py_in (ustr ''Quiver Quantitative'') (e_source_title e))"
    then have "\<not> filtered_out exclude_gov exclude_quiver e"
      by (simp add: filtered_out_def quiver_source_def)
    with h show "article_of U e \<in> set ?res \<or>
      (\<exists>x\<in>set xs. safe_title_of U x = safe_title_of U e \<and> article_of U x \<in> set ?res)"
      by (intro keep) simp_all
  qed
  have E: ?E
  proof (intro impI allI)
    fix xs e ys
    assume g: "\<not> exclude_quiver" and h: "?all = xs @ e # ys \<and>
         py_in (ustr ''Quiver Quantitative'') (e_source_title e) \<and>
         \<not> (exclude_gov \<and> py_in (ustr ''.gov'') (e_source_title e))"
    then have "\<not> filtered_out exclude_gov exclude_quiver e"
      by (simp add: filtered_out_def gov_source_def)
    with h show "article_of U e \<in> set ?res \<or>
      (\<exists>x\<in>set xs. safe_title_of U x = safe_title_of U e \<and> article_of U x \<in> set ?res)"
      by (intro keep) simp_all
  qed
  from A B C D E show ?thesis by blast
qed

text \<open>
  The run of \<open>demo_news\<close>: with both filters enabled neither the \<^verbatim>\<open>.gov\<close> link nor the
  Quiver Quantitative link is returned, with both disabled both records are.
\<close>

theorem source_filters_witness:
  "py_in (ustr ''.gov'') (e_source_title (entry_of ''Grant - Example.gov'' ''x/3'' ''Example.gov'' ''Wed'')) \<and>
   py_in (ustr ''Quiver Quantitative'')
     (e_source_title (entry_of ''Trades'' ''x/5'' ''Quiver Quantitative'' ''Fri'')) \<and>
   ustr ''x/3'' \<notin> a_link ` set (fst (search_jerry_moran_news ascii_db demo_news 3 True True)) \<and>
   ustr ''x/5'' \<notin> a_link ` set (fst (search_jerry_moran_news ascii_db demo_news 3 True True)) \<and>
   article_of ascii_db (entry_of ''Grant - Example.gov'' ''x/3'' ''Example.gov'' ''Wed'')
     \<in> set (fst (search_jerry_moran_news ascii_db demo_news 3 False False)) \<and>
   article_of ascii_db (entry_of ''Trades'' ''x/5'' ''Quiver Quantitative'' ''Fri'')
     \<in> set (fst (search_jerry_moran_news ascii_db demo_news 3 False False))"
proof -
  let ?kwch = "entry_of ''Farm Bill - KWCH'' ''x/1'' ''KWCH'' ''Mon''"
  let ?wibw = "entry_of ''Farm Bill - WIBW'' ''x/2'' ''WIBW'' ''Tue''"
  let ?gov = "entry_of ''Grant - Example.gov'' ''x/3'' ''Example.gov'' ''Wed''"
  let ?cnn = "entry_of ''Grant - CNN'' ''x/4'' ''CNN'' ''Thu''"
  let ?quiver = "entry_of ''Trades'' ''x/5'' ''Quiver Quantitative'' ''Fri''"
  let ?on = "fst (search_jerry_moran_news ascii_db demo_news 3 True True)"
  let ?off = "fst (search_jerry_moran_news ascii_db demo_news 3 False False)"
  let ?all = "all_entries (fetch_all demo_news 3)"
  note on = source_filters [of ascii_db demo_news 3 True True]
  note off = source_filters [of ascii_db demo_news 3 False False]
  have gov: "py_in (ustr ''.gov'') (e_source_title ?gov)"
    using demo_sources(1) by (simp add: gov_source_def)
  have quiver: "py_in (ustr ''Quiver Quantitative'') (e_source_title ?quiver)"
    using demo_sources(9) by (simp add: quiver_source_def)
  have no_gov: "ustr ''x/3'' \<notin> a_link ` set ?on"
  proof
    assume "ustr ''x/3'' \<in> a_link ` set ?on"
    then obtain a where a: "ustr ''x/3'' = a_link a" "a \<in> set ?on" by (rule imageE)
    have "?gov \<in> set ?all" by (simp add: demo_fetch)
    moreover have "e_link ?gov = a_link a" using a(1) by (simp add: entry_of_def)
    ultimately have "\<not> py_in (ustr ''.gov'') (e_source_title ?gov)"
      using on [THEN conjunct2, THEN conjunct1, THEN mp, OF TrueI, THEN bspec, OF a(2)]
      by blast
    with gov show False by simp
  qed
  have no_quiver: "ustr ''x/5'' \<notin> a_link ` set ?on"
  proof
    assume "ustr ''x/5'' \<in> a_link ` set ?on"
    then obtain a where a: "ustr ''x/5'' = a_link a" "a \<in> set ?on" by (rule imageE)
    have "?quiver \<in> set ?all" by (simp add: demo_fetch)
    moreover have "e_link ?quiver = a_link a" using a(1) by (simp add: entry_of_def)
    ultimately have "\<not> py_in (ustr ''Quiver Quantitative'') (e_source_title ?quiver)"
      using on [THEN conjunct2, THEN conjunct2, THEN conjunct1, THEN mp, OF TrueI, THEN bspec, OF a(2)]
      by blast
    with quiver show False by simp
  qed
  have "?all = [?kwch, ?wibw] @ ?gov # [?cnn, ?quiver] \<and> py_in (ustr ''.gov'') (e_source_title ?gov) \<and>
      \<not> (False \<and> py_in (ustr ''Quiver Quantitative'') (e_source_title ?gov))"
    using gov by (simp add: demo_fetch)
  from off [THEN conjunct2, THEN conjunct2, THEN conjunct2, THEN conjunct1, THEN mp, OF not_False_eq_True [THEN iffD2, OF TrueI],
      THEN spec, THEN spec, THEN spec, THEN mp, OF this]
  have keep_gov: "article_of ascii_db ?gov \<in> set ?off"
    by (simp add: demo_safe_titles ustr_def)
  have "?all = [?kwch, ?wibw, ?gov, ?cnn] @ ?quiver # [] \<and>
      py_in (ustr ''Quiver Quantitative'') (e_source_title ?quiver) \<and>
      \<not> (False \<and> py_in (ustr ''.gov'') (e_source_title ?quiver))"
    using quiver by (simp add: demo_fetch)
  from off [THEN conjunct2, THEN conjunct2, THEN conjunct2, THEN conjunct2, THEN mp, OF not_False_eq_True [THEN iffD2, OF TrueI],
      THEN spec, THEN spec, THEN spec, THEN mp, OF this]
  have keep_quiver: "article_of ascii_db ?quiver \<in> set ?off"
    by (simp add: demo_safe_titles ustr_def)
  from gov quiver no_gov no_quiver keep_gov keep_quiver show ?thesis by (intro conjI)
qed

text \<open>
  C3, as the specification states it, fails on \<open>suffix_news\<close>: the function removes
  \<^verbatim>\<open>" - {publisher name}"\<close> also where it is not at the end of the title, and it keeps
  the underscore, which \<^verbatim>\<open>\w\<close> matches.
\<close>

theorem cleaned_fields_counterexample:
  "all_entries (fetch_all suffix_news 3) = [entry_of ''A - K_W B'' ''x/1'' ''K_W'' ''Mon''] \<and>
   fst (search_jerry_moran_news ascii_db suffix_news 3 True True) =
     [\<lparr>a_title = ustr ''A B'', a_media = ustr ''K_W'', a_link = ustr ''x/1'',
       a_is_kansas = False, a_published = ustr ''Mon''\<rparr>] \<and>
   spec_clean_title ascii_db (ustr ''K_W'') (ustr ''A - K_W B'') = ustr ''A - KW B'' \<and>
   spec_clean_publisher ascii_db (ustr ''K_W'') = ustr ''KW'' \<and>
   ustr ''A B'' \<noteq> ustr ''A - KW B'' \<and> ustr ''K_W'' \<noteq> ustr ''KW''"
proof -
  have "spec_clean_title ascii_db (ustr ''K_W'') (ustr ''A - K_W B'') = ustr ''A - KW B''"
    by (simp add: spec_clean_title_def spec_strip_suffix_def endswith_def spec_safe_char_def
        py_strip_def ascii_db_def ustr_def)
  moreover have "spec_clean_publisher ascii_db (ustr ''K_W'') = ustr ''KW''"
    by (simp add: spec_clean_publisher_def spec_safe_char_def py_strip_def ascii_db_def ustr_def)
  moreover have "ustr ''A B'' \<noteq> ustr ''A - KW B'' \<and> ustr ''K_W'' \<noteq> ustr ''KW''"
    by (simp add: ustr_def)
  ultimately show ?thesis by (simp only: suffix_fetch suffix_result simp_thms)
qed

text \<open>
  C3, amended: for every returned article and the merged record with its link, the
  cleaned title is the title of the record with every occurrence of
  \<^verbatim>\<open>" - {publisher name}"\<close> removed (found from the left, not overlapping), then every
  character deleted that is not alphanumeric, an underscore, whitespace or one of
  \<^verbatim>\<open>- . , : ; ! ? ( ) ' "\<close>, then both ends trimmed; the cleaned publisher name is the
  publisher name with the same deletion and trimming and no removal.
\<close>

theorem cleaned_fields:
  "\<forall>a\<in>set (fst (search_jerry_moran_news U get_news days exclude_gov exclude_quiver)).
   \<forall>e\<in>set (all_entries (fetch_all get_news days)). e_link e = a_link a \<longrightarrow>
     a_title a = py_strip U (filter
        (\<lambda>c. isalnum U c \<or> c = of_char CHR ''_'' \<or> isspace U c \<or>
             c \<in> set (ustr ''-.,:;!?()'') \<or> c = 39 \<or> c = 34)
        (py_replace (ustr '' - '' @ e_source_title e) [] (e_title e))) \<and>
     a_media a = py_strip U (filter
        (\<lambda>c. isalnum U c \<or> c = of_char CHR ''_'' \<or> isspace U c \<or>
             c \<in> set (ustr ''-.,:;!?()'') \<or> c = 39 \<or> c = 34)
        (e_source_title e))"
proof (intro ballI impI)
  fix a e
  assume "a \<in> set (fst (search_jerry_moran_news U get_news days exclude_gov exclude_quiver))"
    and "e \<in> set (all_entries (fetch_all get_news days))" and "e_link e = a_link a"
  then have "a = article_of U e" by (rule article_origin_by_link [THEN conjunct1])
  then have "a_title a = clean_text U (py_replace (ustr '' - '' @ e_source_title e) [] (e_title e))"
    and "a_media a = clean_text U (e_source_title e)"
    by (simp_all add: article_of_def safe_title_of_def)
  then show "a_title a = py_strip U (filter
        (\<lambda>c. isalnum U c \<or> c = of_char CHR ''_'' \<or> isspace U c \<or>
             c \<in> set (ustr ''-.,:;!?()'') \<or> c = 39 \<or> c = 34)
        (py_replace (ustr '' - '' @ e_source_title e) [] (e_title e))) \<and>
     a_media a = py_strip U (filter
        (\<lambda>c. isalnum U c \<or> c = of_char CHR ''_'' \<or> isspace U c \<or>
             c \<in> set (ustr ''-.,:;!?()'') \<or> c = 39 \<or> c = 34)
        (e_source_title e))"
    by (simp only: clean_text_filter safe_char_eq)
qed

theorem cleaned_fields_witness:
  "\<lparr>a_title = ustr ''A B'', a_media = ustr ''K_W'', a_link = ustr ''x/1'',
       a_is_kansas = False, a_published = ustr ''Mon''\<rparr>
     \<in> set (fst (search_jerry_moran_news ascii_db suffix_news 3 True True)) \<and>
   entry_of ''A - K_W B'' ''x/1'' ''K_W'' ''Mon'' \<in> set (all_entries (fetch_all suffix_news 3)) \<and>
   ustr ''A B'' = py_strip ascii_db (filter
        (\<lambda>c. isalnum ascii_db c \<or> c = of_char CHR ''_'' \<or> isspace ascii_db c \<or>
             c \<in> set (ustr ''-.,:;!?()'') \<or> c = 39 \<or> c = 34)
        (py_replace (ustr '' - '' @ ustr ''K_W'') [] (ustr ''A - K_W B''))) \<and>
   ustr ''K_W'' = py_strip ascii_db (filter
        (\<lambda>c. isalnum ascii_db c \<or> c = of_char CHR ''_'' \<or> isspace ascii_db c \<or>
             c \<in> set (ustr ''-.,:;!?()'') \<or> c = 39 \<or> c = 34)
        (ustr ''K_W''))"
proof -
  let ?a = "\<lparr>a_title = ustr ''A B'', a_media = ustr ''K_W'', a_link = ustr ''x/1'',
       a_is_kansas = False, a_published = ustr ''Mon''\<rparr>"
  let ?e = "entry_of ''A - K_W B'' ''x/1'' ''K_W'' ''Mon''"
  have a: "?a \<in> set (fst (search_jerry_moran_news ascii_db suffix_news 3 True True))"
    by (simp add: suffix_result)
  have e: "?e \<in> set (all_entries (fetch_all suffix_news 3))"
    by (simp add: suffix_fetch)
  have l: "e_link ?e = a_link ?a" by (simp add: entry_of_def)
  from cleaned_fields [of ascii_db suffix_news 3 True True, THEN bspec, OF a, THEN bspec, OF e,
      THEN mp, OF l] a e
  show ?thesis by (simp add: entry_of_def)
qed

text \<open>
  C4, as the specification states it, fails on \<open>partial_news\<close>: every one of the seven
  variants ends in an exception, yet the record merged before the first variant raised is
  returned and counted.
\<close>

theorem failed_variants_counterexample:
  "warnings (fetch_all partial_news 3) = search_terms \<and>
   search_jerry_moran_news ascii_db partial_news 3 True True =
     ([\<lparr>a_title = ustr ''Farm Bill'', a_media = ustr ''KWCH'', a_link = ustr ''x/1'',
        a_is_kansas = True, a_published = ustr ''Mon''\<rparr>], 1) \<and>
   search_jerry_moran_news ascii_db partial_news 3 True True \<noteq> ([], 0)"
  by (simp add: partial_fetch partial_result)

text \<open>
  C4, amended: on provider records whose values are strings every run returns a result.
  A variant whose provider call raises contributes nothing: the run returns what it
  returns when those calls return no records, and if all seven calls raise it returns
  the empty list and the count zero. A variant whose inner loop raises at a record keeps
  the records before it: the result and the raw count are those that the second loop
  computes from the first occurrences of the links in the records of each variant up to
  the first at which the body raises. A variant ends in a warning exactly when its call
  raised or its loop stopped before the last record, and the body raises at a record
  exactly when the record has no \<^verbatim>\<open>'url'\<close>, or its link is new and another key is missing.
\<close>

theorem failed_variants:
  "(\<exists>res n. search_jerry_moran_news U get_news days exclude_gov exclude_quiver = (res, n)) \<and>
   search_jerry_moran_news U (without_failed_calls get_news) days exclude_gov exclude_quiver =
     search_jerry_moran_news U get_news days exclude_gov exclude_quiver \<and>
   ((\<forall>t\<in>set search_terms. \<exists>x. get_news (google_news_of days) t = Raises x) \<longrightarrow>
      search_jerry_moran_news U get_news days exclude_gov exclude_quiver = ([], 0)) \<and>
   (\<exists>E. map Inr E = map converted_entry (first_by r_url
            (concat (processed_all get_news (google_news_of days) {} search_terms))) \<and>
        search_jerry_moran_news U get_news days exclude_gov exclude_quiver =
          (filtered_results (filter_all U exclude_gov exclude_quiver E), length E)) \<and>
   warnings (fetch_all get_news days) = warned get_news (google_news_of days) {} search_terms \<and>
   ((\<exists>x. merge_entry s r = Inl x) \<longleftrightarrow> raises_at (seen_links s) r)"
proof -
  have r: "\<exists>res n. search_jerry_moran_news U get_news days exclude_gov exclude_quiver = (res, n)"
    by (simp add: search_eq)
  have a: "search_jerry_moran_news U (without_failed_calls get_news) days exclude_gov exclude_quiver =
     search_jerry_moran_news U get_news days exclude_gov exclude_quiver"
    by (simp only: search_eq all_entries_without_failed_calls)
  have b: "search_jerry_moran_news U get_news days exclude_gov exclude_quiver = ([], 0)"
    if "\<forall>t\<in>set search_terms. \<exists>x. get_news (google_news_of days) t = Raises x"
  proof -
    from that have "all_entries (fetch_all get_news days) = []"
      unfolding fetch_all_def by (simp add: all_calls_raise)
    then show ?thesis by (simp add: search_eq filter_all_def)
  qed
  from fetch_all_processed [of get_news days] have
    m: "map Inr (all_entries (fetch_all get_news days)) = map converted_entry (first_by r_url
            (concat (processed_all get_news (google_news_of days) {} search_terms)))" and
    w: "warnings (fetch_all get_news days) = warned get_news (google_news_of days) {} search_terms"
    by simp_all
  from m have c: "\<exists>E. map Inr E = map converted_entry (first_by r_url
            (concat (processed_all get_news (google_news_of days) {} search_terms))) \<and>
        search_jerry_moran_news U get_news days exclude_gov exclude_quiver =
          (filtered_results (filter_all U exclude_gov exclude_quiver E), length E)"
    by (intro exI [of _ "all_entries (fetch_all get_news days)"] conjI search_eq)
  note e = merge_entry_raises [of s r]
  from r a b c w e show ?thesis by (intro conjI impI)
qed

theorem failed_variants_witness:
  "search_jerry_moran_news ascii_db (without_failed_calls demo_news) 3 True True =
     search_jerry_moran_news ascii_db demo_news 3 True True \<and>
   warnings (fetch_all demo_news 3) = [ustr ''Senator Moran''] \<and>
   search_jerry_moran_news ascii_db (\<lambda>g t. Raises ProviderError) 3 True True = ([], 0) \<and>
   concat (processed_all partial_news (google_news_of 3) {} search_terms) =
     [record_of ''Farm Bill'' ''x/1'' ''KWCH'' ''Mon''] \<and>
   warnings (fetch_all partial_news 3) = search_terms \<and>
   search_jerry_moran_news ascii_db partial_news 3 True True =
     ([\<lparr>a_title = ustr ''Farm Bill'', a_media = ustr ''KWCH'', a_link = ustr ''x/1'',
        a_is_kansas = True, a_published = ustr ''Mon''\<rparr>], 1)"
proof -
  note D = failed_variants [of ascii_db demo_news 3 True True]
  note R = failed_variants [of ascii_db "\<lambda>g t. Raises ProviderError" 3 True True]
  note P = failed_variants [of ascii_db partial_news 3 True True]
  have all_raise: "\<forall>t\<in>set search_terms.
      \<exists>x. (\<lambda>g t. Raises ProviderError) (google_news_of 3) t = Raises x"
    by simp
  have c: "concat (processed_all partial_news (google_news_of 3) {} search_terms) =
     [record_of ''Farm Bill'' ''x/1'' ''KWCH'' ''Mon'']"
    by (simp add: partial_processed)
  from P [THEN conjunct2, THEN conjunct2, THEN conjunct2, THEN conjunct2, THEN conjunct1]
  have w: "warnings (fetch_all partial_news 3) = search_terms"
    by (simp only: partial_warned)
  from P [THEN conjunct2, THEN conjunct2, THEN conjunct2, THEN conjunct1]
  obtain E where E: "map Inr E = map converted_entry [record_of ''Farm Bill'' ''x/1'' ''KWCH'' ''Mon'']"
    "search_jerry_moran_news ascii_db partial_news 3 True True =
       (filtered_results (filter_all ascii_db True True E), length E)"
    unfolding c first_by.simps filter.simps by blast
  from E(1) have "E = [entry_of ''Farm Bill'' ''x/1'' ''KWCH'' ''Mon'']"
    by (simp add: converted_entry_def record_of_def entry_of_def map_eq_Cons_conv)
  with E(2) have r: "search_jerry_moran_news ascii_db partial_news 3 True True =
     ([\<lparr>a_title = ustr ''Farm Bill'', a_media = ustr ''KWCH'', a_link = ustr ''x/1'',
        a_is_kansas = True, a_published = ustr ''Mon''\<rparr>], 1)"
    by (simp add: filter_all_def filter_entry_eq entry_of_def clean_defs ustr_def)
  from D [THEN conjunct2, THEN conjunct1] demo_warnings
    R [THEN conjunct2, THEN conjunct2, THEN conjunct1, THEN mp, OF all_raise] c w r
  show ?thesis by (intro conjI)
qed



text \<open>
  C6, as the specification states it, fails on \<open>partial_news\<close>: no variant is
  successful, so no link is seen in a successful variant, and the raw count is one.
\<close>

theorem raw_count_counterexample:
  "snd (search_jerry_moran_news ascii_db partial_news 3 True True) = 1 \<and>
   successful_terms partial_news 3 = [] \<and>
   spec_raw_count partial_news 3 = 0"
proof -
  have "successful_terms partial_news 3 = []"
    by (simp add: successful_terms_def partial_fetch)
  then show ?thesis
    by (simp add: partial_result spec_raw_count_def links_of_def)
qed

text \<open>
  C6, amended: the raw count is the number of records in the list merged by the first
  loop, before the source filters and the title dedup: the number of distinct links in
  the records of each variant up to the first at which the body raises. When every
  returned record has its keys, this is the number of distinct links seen across the
  successful variants, as the specification words it.
\<close>

theorem raw_count:
  "snd (search_jerry_moran_news U get_news days exclude_gov exclude_quiver) =
     length (first_by r_url (concat (processed_all get_news (google_news_of days) {} search_terms))) \<and>
   snd (search_jerry_moran_news U get_news days exclude_gov exclude_quiver) =
     card (links_of (concat (processed_all get_news (google_news_of days) {} search_terms))) \<and>
   ((\<forall>t\<in>set search_terms. \<forall>r\<in>set (returned (get_news (google_news_of days) t)). has_keys r) \<longrightarrow>
      snd (search_jerry_moran_news U get_news days exclude_gov exclude_quiver) =
        spec_raw_count get_news days)"
proof -
  let ?g = "google_news_of days"
  let ?ps = "processed_all get_news ?g {} search_terms"
  from fetch_all_processed [of get_news days] have
    n: "None \<notin> r_url ` set (concat ?ps)" and
    m: "map Inr (all_entries (fetch_all get_news days)) =
      map converted_entry (first_by r_url (concat ?ps))"
    by simp_all
  have a: "snd (search_jerry_moran_news U get_news days exclude_gov exclude_quiver) =
     length (first_by r_url (concat ?ps))"
    by (simp only: search_count merged_length)
  have b: "snd (search_jerry_moran_news U get_news days exclude_gov exclude_quiver) =
     card (links_of (concat ?ps))"
    unfolding search_count using n m by (rule length_all_entries_links)
  have c: "snd (search_jerry_moran_news U get_news days exclude_gov exclude_quiver) =
        spec_raw_count get_news days"
    if "\<forall>t\<in>set search_terms. \<forall>r\<in>set (returned (get_news ?g t)). has_keys r"
    using b by (simp only: processed_all_has_keys [where get_news = get_news and g = "google_news_of days" and ts = search_terms, OF that] spec_raw_count_has_keys [where get_news = get_news and days = days, OF that])
  from a b c show ?thesis by (intro conjI impI)
qed

theorem raw_count_witness:
  "snd (search_jerry_moran_news ascii_db demo_news 3 True True) = 5 \<and>
   spec_raw_count demo_news 3 = 5 \<and>
   card (links_of (concat (processed_all partial_news (google_news_of 3) {} search_terms))) = 1 \<and>
   snd (search_jerry_moran_news ascii_db partial_news 3 True True) = 1"
proof -
  note D = raw_count [of ascii_db demo_news 3 True True]
  note P = raw_count [of ascii_db partial_news 3 True True]
  have a: "snd (search_jerry_moran_news ascii_db demo_news 3 True True) = 5"
    by (simp add: search_count demo_fetch)
  from D [THEN conjunct2, THEN conjunct2, THEN mp, OF demo_has_keys] a
  have b: "spec_raw_count demo_news 3 = 5" by simp
  have c: "card (links_of (concat (processed_all partial_news (google_news_of 3) {} search_terms))) = 1"
    by (simp add: partial_processed links_of_Cons links_of_Nil record_of_def)
  from P [THEN conjunct2, THEN conjunct1] c
  have d: "snd (search_jerry_moran_news ascii_db partial_news 3 True True) = 1" by simp
  from a b c d show ?thesis by (intro conjI)
qed

text \<open>
  C7: for every returned article and the merged record with its link, the flag
  \<open>a_is_kansas\<close> holds exactly when some entry of \<open>kansas_outlets\<close> occurs in the raw
  publisher name of the record; and the links returned are those of the first record of
  each cleaned title among the records the source filters let pass, whatever the flags
  are: the list of outlets excludes nothing.
\<close>

theorem regional_flag:
  "(\<forall>a\<in>set (fst (search_jerry_moran_news U get_news days exclude_gov exclude_quiver)).
      (\<exists>e\<in>set (all_entries (fetch_all get_news days)). e_link e = a_link a) \<and>
      (\<forall>e\<in>set (all_entries (fetch_all get_news days)). e_link e = a_link a \<longrightarrow>
         a_is_kansas a = (\<exists>outlet\<in>set kansas_outlets. py_in outlet (e_source_title e)))) \<and>
   map a_link (fst (search_jerry_moran_news U get_news days exclude_gov exclude_quiver)) =
     map e_link (first_by (safe_title_of U)
       (filter (\<lambda>e. \<not> filtered_out exclude_gov exclude_quiver e)
          (all_entries (fetch_all get_news days))))"
proof -
  let ?res = "fst (search_jerry_moran_news U get_news days exclude_gov exclude_quiver)"
  let ?all = "all_entries (fetch_all get_news days)"
  have ex: "\<exists>e\<in>set ?all. e_link e = a_link a" if "a \<in> set ?res" for a
  proof -
    from that obtain e where "e \<in> set ?all" "a = article_of U e" by (rule article_origin)
    then show ?thesis by (auto simp: article_of_def)
  qed
  have flag: "a_is_kansas a = (\<exists>outlet\<in>set kansas_outlets. py_in outlet (e_source_title e))"
    if "a \<in> set ?res" "e \<in> set ?all" "e_link e = a_link a" for a e
  proof -
    from article_origin_by_link [OF that] have "a = article_of U e" by simp
    then show ?thesis by (simp add: article_of_def kansas_source_def list_ex_iff)
  qed
  have "map a_link ?res = map e_link (first_by (safe_title_of U)
       (filter (\<lambda>e. \<not> filtered_out exclude_gov exclude_quiver e) ?all))"
    by (simp only: search_result map_link_article)
  with ex flag show ?thesis by blast
qed

theorem regional_flag_witness:
  "\<lparr>a_title = ustr ''Farm Bill'', a_media = ustr ''KWCH'', a_link = ustr ''x/1'',
       a_is_kansas = True, a_published = ustr ''Mon''\<rparr>
     \<in> set (fst (search_jerry_moran_news ascii_db demo_news 3 True True)) \<and>
   (True = (\<exists>outlet\<in>set kansas_outlets. py_in outlet (ustr ''KWCH''))) \<and>
   \<lparr>a_title = ustr ''Grant'', a_media = ustr ''CNN'', a_link = ustr ''x/4'',
       a_is_kansas = False, a_published = ustr ''Thu''\<rparr>
     \<in> set (fst (search_jerry_moran_news ascii_db demo_news 3 True True)) \<and>
   (False = (\<exists>outlet\<in>set kansas_outlets. py_in outlet (ustr ''CNN''))) \<and>
   map a_link (fst (search_jerry_moran_news ascii_db demo_news 3 True True)) = [ustr ''x/1'', ustr ''x/4'']"
proof -
  let ?a1 = "\<lparr>a_title = ustr ''Farm Bill'', a_media = ustr ''KWCH'', a_link = ustr ''x/1'',
       a_is_kansas = True, a_published = ustr ''Mon''\<rparr>"
  let ?a4 = "\<lparr>a_title = ustr ''Grant'', a_media = ustr ''CNN'', a_link = ustr ''x/4'',
       a_is_kansas = False, a_published = ustr ''Thu''\<rparr>"
  let ?kwch = "entry_of ''Farm Bill - KWCH'' ''x/1'' ''KWCH'' ''Mon''"
  let ?cnn = "entry_of ''Grant - CNN'' ''x/4'' ''CNN'' ''Thu''"
  let ?res = "fst (search_jerry_moran_news ascii_db demo_news 3 True True)"
  let ?all = "all_entries (fetch_all demo_news 3)"
  note flag = regional_flag [of ascii_db demo_news 3 True True, THEN conjunct1]
  have a1: "?a1 \<in> set ?res" and a4: "?a4 \<in> set ?res" by (simp_all add: demo_result_filtered)
  have e1: "?kwch \<in> set ?all" and e4: "?cnn \<in> set ?all" by (simp_all add: demo_fetch)
  have l1: "e_link ?kwch = a_link ?a1" and l4: "e_link ?cnn = a_link ?a4"
    by (simp_all add: entry_of_def)
  from flag [THEN bspec, OF a1, THEN conjunct2, THEN bspec, OF e1, THEN mp, OF l1]
  have f1: "True = (\<exists>outlet\<in>set kansas_outlets. py_in outlet (ustr ''KWCH''))"
    by (simp add: entry_of_def)
  from flag [THEN bspec, OF a4, THEN conjunct2, THEN bspec, OF e4, THEN mp, OF l4]
  have f4: "False = (\<exists>outlet\<in>set kansas_outlets. py_in outlet (ustr ''CNN''))"
    by (simp add: entry_of_def)
  have links: "map a_link ?res = [ustr ''x/1'', ustr ''x/4'']"
    by (simp add: demo_result_filtered)
  from a1 f1 a4 f4 links show ?thesis by (intro conjI)
qed

text \<open>
  C8: cleaning is idempotent: \<^verbatim>\<open>clean_text\<close> applied to a text it has cleaned returns
  that text, for every string and every character database.
\<close>

theorem clean_text_idempotent: "clean_text U (clean_text U s) = clean_text U s"
proof -
  let ?t = "py_strip U (filter (safe_char U) s)"
  have "set ?t \<subseteq> set (filter (safe_char U) s)" by (rule set_py_strip)
  then have "\<forall>c\<in>set ?t. safe_char U c" by auto
  then have "filter (safe_char U) ?t = ?t" by (simp add: filter_id_conv)
  then show ?thesis by (simp add: clean_text_filter py_strip_idem)
qed

text \<open>
  C9: for every number of days, every combination of the two flags and every provider,
  the returned list has at most as many articles as the returned raw count.
\<close>

theorem result_count_le_raw_count:
  "length (fst (search_jerry_moran_news U get_news days exclude_gov exclude_quiver))
     \<le> snd (search_jerry_moran_news U get_news days exclude_gov exclude_quiver)"
proof -
  let ?E = "all_entries (fetch_all get_news days)"
  have "length (first_by (safe_title_of U) (filter (\<lambda>e. \<not> filtered_out exclude_gov exclude_quiver e) ?E))
      \<le> length ?E"
    by (rule list_emb_length [OF subseq_kept])
  then show ?thesis by (simp add: search_result search_count)
qed

text \<open>
  C10: a record dropped by a source filter leaves the state of the second loop as it is,
  so its cleaned title is not added to \<open>seen_titles\<close>; and a merged record that passes the
  filters is returned whenever every earlier record with the same cleaned title was
  dropped by a filter.
\<close>

theorem filters_before_title_dedup:
  "(filtered_out exclude_gov exclude_quiver e \<longrightarrow>
      filter_entry U exclude_gov exclude_quiver s e = s) \<and>
   (all_entries (fetch_all get_news days) = xs @ e' # ys \<and>
    \<not> filtered_out exclude_gov exclude_quiver e' \<and>
    (\<forall>x\<in>set xs. filtered_out exclude_gov exclude_quiver x \<or> safe_title_of U x \<noteq> safe_title_of U e') \<longrightarrow>
      article_of U e' \<in> set (fst (search_jerry_moran_news U get_news days exclude_gov exclude_quiver)))"
proof -
  have "filter_entry U exclude_gov exclude_quiver s e = s"
    if "filtered_out exclude_gov exclude_quiver e"
    using that by (simp add: filter_entry_eq)
  moreover have "article_of U e' \<in> set (fst (search_jerry_moran_news U get_news days exclude_gov exclude_quiver))"
    if "all_entries (fetch_all get_news days) = xs @ e' # ys"
      "\<not> filtered_out exclude_gov exclude_quiver e'"
      "\<forall>x\<in>set xs. filtered_out exclude_gov exclude_quiver x \<or> safe_title_of U x \<noteq> safe_title_of U e'"
    using that by (rule unfiltered_first_kept)
  ultimately show ?thesis by blast
qed

theorem filters_before_title_dedup_witness:
  "filtered_out True True (entry_of ''Grant - Example.gov'' ''x/3'' ''Example.gov'' ''Wed'') \<and>
   safe_title_of ascii_db (entry_of ''Grant - Example.gov'' ''x/3'' ''Example.gov'' ''Wed'') =
     safe_title_of ascii_db (entry_of ''Grant - CNN'' ''x/4'' ''CNN'' ''Thu'') \<and>
   filter_entry ascii_db True True
     \<lparr>filtered_results = [], seen_titles = {ustr ''Farm Bill''}\<rparr>
     (entry_of ''Grant - Example.gov'' ''x/3'' ''Example.gov'' ''Wed'') =
     \<lparr>filtered_results = [], seen_titles = {ustr ''Farm Bill''}\<rparr> \<and>
   article_of ascii_db (entry_of ''Grant - CNN'' ''x/4'' ''CNN'' ''Thu'')
     \<in> set (fst (search_jerry_moran_news ascii_db demo_news 3 True True))"
proof -
  let ?kwch = "entry_of ''Farm Bill - KWCH'' ''x/1'' ''KWCH'' ''Mon''"
  let ?wibw = "entry_of ''Farm Bill - WIBW'' ''x/2'' ''WIBW'' ''Tue''"
  let ?gov = "entry_of ''Grant - Example.gov'' ''x/3'' ''Example.gov'' ''Wed''"
  let ?cnn = "entry_of ''Grant - CNN'' ''x/4'' ''CNN'' ''Thu''"
  let ?quiver = "entry_of ''Trades'' ''x/5'' ''Quiver Quantitative'' ''Fri''"
  let ?s = "\<lparr>filtered_results = [], seen_titles = {ustr ''Farm Bill''}\<rparr>"
  note T = filters_before_title_dedup [where exclude_gov = True and exclude_quiver = True
      and e = ?gov and U = ascii_db and s = ?s and get_news = demo_news and days = 3
      and xs = "[?kwch, ?wibw, ?gov]" and e' = ?cnn and ys = "[?quiver]"]
  have out: "filtered_out True True ?gov" by (simp add: filtered_out_def demo_sources)
  have same: "safe_title_of ascii_db ?gov = safe_title_of ascii_db ?cnn"
    by (simp add: demo_safe_titles)
  have hyp: "all_entries (fetch_all demo_news 3) = [?kwch, ?wibw, ?gov] @ ?cnn # [?quiver] \<and>
    \<not> filtered_out True True ?cnn \<and>
    (\<forall>x\<in>set [?kwch, ?wibw, ?gov]. filtered_out True True x \<or>
       safe_title_of ascii_db x \<noteq> safe_title_of ascii_db ?cnn)"
    by (simp add: demo_fetch filtered_out_def demo_sources demo_safe_titles ustr_def)
  from T [THEN conjunct1, THEN mp, OF out] T [THEN conjunct2, THEN mp, OF hyp] out same
  show ?thesis by (intro conjI)
qed

end
